theory Spec2Isabelle
  imports Main "HOL-Library.Word" "HOL-Library.Sublist"
begin

section \<open>Values, keys and the key codec\<close>

text \<open>
  A value of the store, as JavaScript has it at run time: a number is modelled as an
  integer (segment indices and retry counts are integers), a string as a list of
  characters whose length is what \<^verbatim>\<open>json.length\<close> counts, an object as the list of
  its fields in insertion order. \<^verbatim>\<open>undefined\<close> is the absence of a field
  (\<open>None\<close> of a lookup).
\<close>

datatype kvvalue =
    VNull
  | VBool bool
  | VNum int
  | VStr string
  | VBig int
  | VU64 "64 word"
  | VArr "kvvalue list"
  | VObj "(string \<times> kvvalue) list"

text \<open>
  \<^verbatim>\<open>KvId\<close> and \<^verbatim>\<open>KvKey\<close> (types.ts): TypeScript narrows a key part to a
  primitive; at run time a key is an array of values, and the casts
  \<^verbatim>\<open>as KvId\<close> of the source check nothing.
\<close>

type_synonym KvId = kvvalue
type_synonym KvKey = "kvvalue list"
type_synonym versionstamp = nat

text \<open>
  Modelled from the spec: \<^verbatim>\<open>extendKey\<close>, \<^verbatim>\<open>keyEq\<close> and \<^verbatim>\<open>getDocumentId\<close>
  (utils.ts, not under src/). The spec's key codec (4.1): \<open>extend(key, ...parts)\<close>
  appends the parts; equality of keys is part-wise equality; \<open>trailingId\<close> returns the
  last part of a key (the spec names the keys whose penultimate part is the "id" marker;
  \<^verbatim>\<open>setDocument\<close> applies it to segment keys to read the segment index back, spec 4.6
  step 6 and section 6), and \<^verbatim>\<open>undefined\<close> on the empty key.
\<close>

definition extendKey :: "KvKey \<Rightarrow> kvvalue list \<Rightarrow> KvKey" where
  "extendKey key keyParts = key @ keyParts"

definition keyEq :: "KvKey \<Rightarrow> KvKey \<Rightarrow> bool" where
  "keyEq k1 k2 = (k1 = k2)"

definition getDocumentId :: "KvKey \<Rightarrow> KvId option" where
  "getDocumentId key = (if key = [] then None else Some (last key))"

text \<open>
  Modelled from the spec: the constants of constants.ts (not under src/). The spec's
  namespace layout (3): one reserved root segment, then the collection path, then the
  markers \<open>"id"\<close>, \<open>"segment"\<close>, \<open>"primary_index"\<close> and \<open>"secondary_index"\<close>. The
  spec does not give the root's text; no theorem depends on it.
\<close>

definition KVDEX_KEY_PREFIX :: kvvalue where
  "KVDEX_KEY_PREFIX = VStr ''__kvdex__''"

definition ID_KEY_PREFIX :: kvvalue where
  "ID_KEY_PREFIX = VStr ''id''"

definition SEGMENT_KEY_PREFIX :: kvvalue where
  "SEGMENT_KEY_PREFIX = VStr ''segment''"

definition PRIMARY_INDEX_KEY_PREFIX :: kvvalue where
  "PRIMARY_INDEX_KEY_PREFIX = VStr ''primary_index''"

definition SECONDARY_INDEX_KEY_PREFIX :: kvvalue where
  "SECONDARY_INDEX_KEY_PREFIX = VStr ''secondary_index''"

text \<open>JavaScript's truthiness, as \<^verbatim>\<open>!value\<close> and \<^verbatim>\<open>entry.value ? .. : ..\<close> test it.\<close>

fun truthy :: "kvvalue \<Rightarrow> bool" where
  "truthy VNull = False"
| "truthy (VBool b) = b"
| "truthy (VNum n) = (n \<noteq> 0)"
| "truthy (VStr s) = (s \<noteq> [])"
| "truthy (VBig n) = (n \<noteq> 0)"
| "truthy (VU64 w) = True"
| "truthy (VArr xs) = True"
| "truthy (VObj fs) = True"

section \<open>The store\<close>

text \<open>
  Modelled from the spec: the key-value store (\<^verbatim>\<open>Deno.Kv\<close>, an external
  collaborator; spec 4.2). An atomic batch collects version checks and mutations; its
  commit is all-or-nothing: every check is evaluated against the state before the batch,
  and the failure of any check aborts the batch without side effects. A \<open>sum\<close> on a
  value that is not the 64-bit counter fails the batch (spec 4.7).

  The state is passed explicitly. Beside the entries it holds the next versionstamp,
  a schedule of store-level failures (the head says whether the next commit is refused
  by the store whatever its checks; the empty schedule refuses nothing), and the trace of
  the requests made, which makes reads and the order of requests observable.
\<close>

datatype atomic_check = Check KvKey "versionstamp option"

datatype mutation =
    MSet KvKey kvvalue
  | MDelete KvKey
  | MSum KvKey "64 word"

record atomic_operation =
  checks :: "atomic_check list"
  mutations :: "mutation list"

datatype commit = KvCommitResult versionstamp | KvCommitError

datatype io_event =
    EGet KvKey
  | EDelete KvKey
  | ECommit "atomic_check list" "mutation list" bool

record kv =
  entries :: "KvKey \<rightharpoonup> (kvvalue \<times> versionstamp)"
  clock :: versionstamp
  faults :: "bool list"
  trace :: "io_event list"

fun ok :: "commit \<Rightarrow> bool" where
  "ok (KvCommitResult vs) = True"
| "ok KvCommitError = False"

definition atomic :: atomic_operation where
  "atomic = \<lparr>checks = [], mutations = []\<rparr>"

definition op_check :: "atomic_check list \<Rightarrow> atomic_operation \<Rightarrow> atomic_operation" where
  "op_check cs a = a\<lparr>checks := checks a @ cs\<rparr>"

definition op_mutate :: "mutation list \<Rightarrow> atomic_operation \<Rightarrow> atomic_operation" where
  "op_mutate ms a = a\<lparr>mutations := mutations a @ ms\<rparr>"

definition op_set :: "KvKey \<Rightarrow> kvvalue \<Rightarrow> atomic_operation \<Rightarrow> atomic_operation" where
  "op_set k v a = op_mutate [MSet k v] a"

definition op_delete :: "KvKey \<Rightarrow> atomic_operation \<Rightarrow> atomic_operation" where
  "op_delete k a = op_mutate [MDelete k] a"

definition op_sum :: "KvKey \<Rightarrow> 64 word \<Rightarrow> atomic_operation \<Rightarrow> atomic_operation" where
  "op_sum k n a = op_mutate [MSum k n] a"

fun check_holds :: "(KvKey \<rightharpoonup> (kvvalue \<times> versionstamp)) \<Rightarrow> atomic_check \<Rightarrow> bool" where
  "check_holds es (Check k expected) =
     (case es k of None \<Rightarrow> expected = None | Some (v, vs) \<Rightarrow> expected = Some vs)"

fun apply_mutation ::
  "versionstamp \<Rightarrow> mutation \<Rightarrow> (KvKey \<rightharpoonup> (kvvalue \<times> versionstamp))
     \<Rightarrow> (KvKey \<rightharpoonup> (kvvalue \<times> versionstamp)) option" where
  "apply_mutation vs (MSet k v) es = Some (es(k \<mapsto> (v, vs)))"
| "apply_mutation vs (MDelete k) es = Some (es(k := None))"
| "apply_mutation vs (MSum k n) es =
     (case es k of
        None \<Rightarrow> Some (es(k \<mapsto> (VU64 n, vs)))
      | Some (VU64 m, old) \<Rightarrow> Some (es(k \<mapsto> (VU64 (m + n), vs)))
      | Some (other, old) \<Rightarrow> None)"

fun apply_mutations ::
  "versionstamp \<Rightarrow> mutation list \<Rightarrow> (KvKey \<rightharpoonup> (kvvalue \<times> versionstamp))
     \<Rightarrow> (KvKey \<rightharpoonup> (kvvalue \<times> versionstamp)) option" where
  "apply_mutations vs [] es = Some es"
| "apply_mutations vs (m # ms) es =
     (case apply_mutation vs m es of
        None \<Rightarrow> None
      | Some es' \<Rightarrow> apply_mutations vs ms es')"

definition refused :: "kv \<Rightarrow> bool" where
  "refused s = (case faults s of [] \<Rightarrow> False | f # fs \<Rightarrow> f)"

definition atomic_commit :: "atomic_operation \<Rightarrow> kv \<Rightarrow> commit \<times> kv" where
  "atomic_commit a s =
     (let failed = (KvCommitError,
            s\<lparr>faults := tl (faults s),
              trace := trace s @ [ECommit (checks a) (mutations a) False]\<rparr>)
      in if refused s \<or> \<not> list_all (check_holds (entries s)) (checks a) then failed
         else (case apply_mutations (clock s) (mutations a) (entries s) of
                 None \<Rightarrow> failed
               | Some es \<Rightarrow>
                   (KvCommitResult (clock s),
                    s\<lparr>entries := es, clock := Suc (clock s), faults := tl (faults s),
                      trace := trace s @ [ECommit (checks a) (mutations a) True]\<rparr>)))"

definition kv_get :: "KvKey \<Rightarrow> kv \<Rightarrow> (kvvalue \<times> versionstamp option) \<times> kv" where
  "kv_get k s =
     ((case entries s k of None \<Rightarrow> (VNull, None) | Some (v, vs) \<Rightarrow> (v, Some vs)),
      s\<lparr>trace := trace s @ [EGet k]\<rparr>)"

definition kv_delete :: "KvKey \<Rightarrow> kv \<Rightarrow> kv" where
  "kv_delete k s = s\<lparr>entries := (entries s)(k := None), trace := trace s @ [EDelete k]\<rparr>"

text \<open>
  Modelled from the spec: \<^verbatim>\<open>kvGetMany\<close> (utils.ts, not under src/): the entries of
  the keys, ordering preserved (spec 4.2).
\<close>

fun kvGetMany :: "KvKey list \<Rightarrow> kv \<Rightarrow> (kvvalue \<times> versionstamp option) list \<times> kv" where
  "kvGetMany [] s = ([], s)"
| "kvGetMany (k # ks) s =
     (let (e, s1) = kv_get k s; (es, s2) = kvGetMany ks s1 in (e # es, s2))"

text \<open>
  \<^verbatim>\<open>allFulfilled(keys.map((key) => this.kv.delete(key)))\<close>: the deletes are issued in
  the order of the keys.
\<close>

fun deleteKeys :: "KvKey list \<Rightarrow> kv \<Rightarrow> kv" where
  "deleteKeys [] s = s"
| "deleteKeys (k # ks) s = deleteKeys ks (kv_delete k s)"

text \<open>
  Modelled from the spec: \<^verbatim>\<open>useAtomics\<close> (utils.ts, not under src/): it splits the
  list of elements across as many batches as the store's bound on a batch needs, folds
  the callback over the elements of each batch and commits it, and returns the commit
  results per batch (spec 4.2). The callback of \<^verbatim>\<open>setDocument\<close> updates variables it
  captures, so a callback takes and returns the captured state \<open>'c\<close>. The batches are
  built and their commits issued in the order of the elements.
\<close>

function slices :: "nat \<Rightarrow> 'a list \<Rightarrow> 'a list list" where
  "slices n xs = (if xs = [] \<or> n = 0 then [] else take n xs # slices n (drop n xs))"
  by pat_completeness auto
termination
  by (relation "measure (\<lambda>(n, xs). length xs)") auto

fun build_batch ::
  "('a \<Rightarrow> 'c \<Rightarrow> atomic_operation \<Rightarrow> atomic_operation \<times> 'c) \<Rightarrow> 'a list \<Rightarrow> 'c
     \<Rightarrow> atomic_operation \<Rightarrow> atomic_operation \<times> 'c" where
  "build_batch fn [] c a = (a, c)"
| "build_batch fn (x # xs) c a = (let (a1, c1) = fn x c a in build_batch fn xs c1 a1)"

fun run_batches ::
  "('a \<Rightarrow> 'c \<Rightarrow> atomic_operation \<Rightarrow> atomic_operation \<times> 'c) \<Rightarrow> 'a list list \<Rightarrow> 'c
     \<Rightarrow> kv \<Rightarrow> commit list \<times> 'c \<times> kv" where
  "run_batches fn [] c s = ([], c, s)"
| "run_batches fn (b # bs) c s =
     (let (a, c1) = build_batch fn b c atomic;
          (cr, s1) = atomic_commit a s;
          (crs, c2, s2) = run_batches fn bs c1 s1
      in (cr # crs, c2, s2))"

definition useAtomics ::
  "nat \<Rightarrow> 'a list \<Rightarrow> ('a \<Rightarrow> 'c \<Rightarrow> atomic_operation \<Rightarrow> atomic_operation \<times> 'c) \<Rightarrow> 'c
     \<Rightarrow> kv \<Rightarrow> commit list \<times> 'c \<times> kv" where
  "useAtomics limit elements fn c s = run_batches fn (slices limit elements) c s"

section \<open>Large collections (large_collection.ts)\<close>

text \<open>
  What the platform and the modules outside src/ give to \<^verbatim>\<open>LargeCollection\<close>:
  the constant \<^verbatim>\<open>LARGE_COLLECTION_STRING_LIMIT\<close> (constants.ts), the store's bound
  on the mutations of one batch that \<^verbatim>\<open>useAtomics\<close> slices by, and JavaScript's
  \<^verbatim>\<open>JSON.stringify\<close> and \<^verbatim>\<open>JSON.parse\<close> (\<open>None\<close> where \<^verbatim>\<open>JSON.parse\<close>
  throws). They are parameters: every theorem holds for each choice of them that meets
  its hypotheses. \<open>'v\<close> is the type \<^verbatim>\<open>T1\<close> of the documents' values.
\<close>

record 'v platform =
  LARGE_COLLECTION_STRING_LIMIT :: nat
  ATOMIC_OPERATION_MUTATION_LIMIT :: nat
  JSON_stringify :: "'v \<Rightarrow> string"
  JSON_parse :: "string \<Rightarrow> 'v option"

datatype error = ModelParseError | CorruptedDocumentDataError | TypeError

record LargeCollectionKeys =
  baseKey :: KvKey
  idKey :: KvKey
  segmentKey :: KvKey

text \<open>
  The fields of a \<^verbatim>\<open>LargeCollection\<close> that its methods read: \<^verbatim>\<open>_keys\<close>,
  \<^verbatim>\<open>_model.parse\<close> (\<open>None\<close> where it throws) and \<^verbatim>\<open>_idGenerator\<close>.
\<close>

record 'v LargeCollection =
  l_keys :: LargeCollectionKeys
  l_model_parse :: "'v \<Rightarrow> 'v option"
  l_idGenerator :: "'v \<Rightarrow> KvId"

text \<open>The constructor: the keys are built from the collection's path \<open>key\<close>.\<close>

definition newLargeCollection ::
  "KvKey \<Rightarrow> ('v \<Rightarrow> 'v option) \<Rightarrow> ('v \<Rightarrow> KvId) \<Rightarrow> 'v LargeCollection" where
  "newLargeCollection key model_parse idGenerator =
     \<lparr>l_keys =
        \<lparr>baseKey = extendKey [KVDEX_KEY_PREFIX] key,
         idKey = extendKey [KVDEX_KEY_PREFIX] (key @ [ID_KEY_PREFIX]),
         segmentKey = extendKey [KVDEX_KEY_PREFIX] (key @ [SEGMENT_KEY_PREFIX])\<rparr>,
      l_model_parse = model_parse,
      l_idGenerator = idGenerator\<rparr>"

text \<open>
  \<^verbatim>\<open>LargeDocumentEntry\<close> (types.ts): the manifest \<^verbatim>\<open>{ ids: [...] }\<close>. Reading
  \<^verbatim>\<open>ids\<close> from a value of another shape gives no list; the first use of it as a list
  is a \<^verbatim>\<open>TypeError\<close>.
\<close>

definition largeDocumentEntry :: "KvId list \<Rightarrow> kvvalue" where
  "largeDocumentEntry ids = VObj [(''ids'', VArr ids)]"

fun entry_ids :: "kvvalue \<Rightarrow> KvId list option" where
  "entry_ids (VObj fs) = (case map_of fs ''ids'' of Some (VArr xs) \<Rightarrow> Some xs | _ \<Rightarrow> None)"
| "entry_ids other = None"

text \<open>
  Modelled from the spec: the class \<^verbatim>\<open>Document\<close> (document.ts, not under src/):
  \<^verbatim>\<open>find\<close> returns a document of the id, the decoded value and the manifest's
  versionstamp (spec 4.6, Read).
\<close>

record 'v Document =
  doc_id :: KvId
  doc_value :: 'v
  doc_versionstamp :: versionstamp

text \<open>
  \<^verbatim>\<open>jsonParts.join("")\<close>. The type \<^verbatim>\<open>kvGetMany<string>\<close> says that the parts are
  strings, and a string is joined as it is; a part of another type is not refused but
  converted the way \<^verbatim>\<open>Array.prototype.join\<close> converts an element: a number, a bigint
  and a \<^verbatim>\<open>KvU64\<close> to its decimal digits, a boolean to its name, an array to its elements
  joined by commas (\<^verbatim>\<open>null\<close> giving the empty string there), an object to
  \<^verbatim>\<open>[object Object]\<close>.
\<close>

fun decimal :: "nat \<Rightarrow> string" where
  "decimal n =
     (if n < 10 then [''0123456789'' ! n]
      else decimal (n div 10) @ [''0123456789'' ! (n mod 10)])"

declare decimal.simps [simp del]

definition decimal_int :: "int \<Rightarrow> string" where
  "decimal_int i = (if i < 0 then CHR ''-'' # decimal (nat (- i)) else decimal (nat i))"

fun comma_join :: "string list \<Rightarrow> string" where
  "comma_join [] = []"
| "comma_join [x] = x"
| "comma_join (x # y # ys) = x @ '','' @ comma_join (y # ys)"

fun js_string :: "kvvalue \<Rightarrow> string" where
  "js_string VNull = ''null''"
| "js_string (VBool b) = (if b then ''true'' else ''false'')"
| "js_string (VNum n) = decimal_int n"
| "js_string (VStr str) = str"
| "js_string (VBig n) = decimal_int n"
| "js_string (VU64 w) = decimal (unat w)"
| "js_string (VArr xs) = comma_join (map (\<lambda>x. if x = VNull then [] else js_string x) xs)"
| "js_string (VObj fs) = ''[object Object]''"

definition join_parts :: "kvvalue list \<Rightarrow> string" where
  "join_parts parts = concat (map js_string parts)"

definition constructLargeDocument ::
  "'v platform \<Rightarrow> 'v LargeCollection \<Rightarrow> KvId \<Rightarrow> kvvalue \<Rightarrow> versionstamp \<Rightarrow> kv
     \<Rightarrow> (error + 'v Document) \<times> kv" where
  "constructLargeDocument pf lc ident val versionstamp s =
     (case entry_ids val of
        None \<Rightarrow> (Inl TypeError, s)
      | Some ids \<Rightarrow>
          (let keys = map (\<lambda>segId. extendKey (segmentKey (l_keys lc)) [ident, segId]) ids;
               (docEntries, s1) = kvGetMany keys s;
               jsonParts =
                 foldl (\<lambda>parts entry. if truthy (fst entry) then parts @ [fst entry] else parts)
                   [] docEntries
           in if length jsonParts \<noteq> length docEntries
              then (Inl CorruptedDocumentDataError, s1)
              else (let json = join_parts jsonParts
                    in case JSON_parse pf json of
                         None \<Rightarrow> (Inl CorruptedDocumentDataError, s1)
                       | Some v \<Rightarrow>
                           (Inr \<lparr>doc_id = ident, doc_value = v,
                                 doc_versionstamp = versionstamp\<rparr>, s1))))"

definition LargeCollection_find ::
  "'v platform \<Rightarrow> 'v LargeCollection \<Rightarrow> KvId \<Rightarrow> kv
     \<Rightarrow> (error + 'v Document option) \<times> kv" where
  "LargeCollection_find pf lc ident s =
     (let idKey = extendKey (idKey (l_keys lc)) [ident];
          ((val, versionstamp), s1) = kv_get idKey s
      in case versionstamp of
           None \<Rightarrow> (Inr None, s1)
         | Some vs \<Rightarrow>
             if val = VNull then (Inr None, s1)
             else (case constructLargeDocument pf lc ident val vs s1 of
                     (Inl e, s2) \<Rightarrow> (Inl e, s2)
                   | (Inr doc, s2) \<Rightarrow> (Inr (Some doc), s2)))"

text \<open>
  \<^verbatim>\<open>delete(...ids)\<close> for one id, the callback of its \<^verbatim>\<open>ids.map\<close>:
  \<^verbatim>\<open>setDocument\<close> calls it with one id.
\<close>

definition delete_segment ::
  "'v LargeCollection \<Rightarrow> KvId \<Rightarrow> KvId \<Rightarrow> unit \<Rightarrow> atomic_operation
     \<Rightarrow> atomic_operation \<times> unit" where
  "delete_segment lc ident segId c a =
     (let key = extendKey (segmentKey (l_keys lc)) [ident, segId] in (op_delete key a, c))"

definition LargeCollection_delete ::
  "'v platform \<Rightarrow> 'v LargeCollection \<Rightarrow> KvId \<Rightarrow> kv \<Rightarrow> (error + unit) \<times> kv" where
  "LargeCollection_delete pf lc ident s =
     (let idKey = extendKey (idKey (l_keys lc)) [ident];
          ((val, versionstamp), s1) = kv_get idKey s
      in if \<not> truthy val then (Inr (), s1)
         else (let s2 = kv_delete idKey s1
               in case entry_ids val of
                    None \<Rightarrow> (Inl TypeError, s2)
                  | Some ids \<Rightarrow>
                      (let (crs, c, s3) =
                             useAtomics (ATOMIC_OPERATION_MUTATION_LIMIT pf) ids
                               (delete_segment lc ident) () s2
                       in (Inr (), s3))))"

text \<open>\<^verbatim>\<open>SetOptions\<close>: the field \<^verbatim>\<open>retry\<close> (the store model has no expiry).\<close>

record SetOptions =
  retry :: "int option"

definition retry_of :: "SetOptions option \<Rightarrow> int" where
  "retry_of options =
     (case options of None \<Rightarrow> 0 | Some opts \<Rightarrow> (case retry opts of None \<Rightarrow> 0 | Some r \<Rightarrow> r))"

definition with_retry :: "SetOptions option \<Rightarrow> int \<Rightarrow> SetOptions option" where
  "with_retry options r =
     (case options of
        None \<Rightarrow> Some \<lparr>retry = Some r\<rparr>
      | Some opts \<Rightarrow> Some (opts\<lparr>retry := Some r\<rparr>))"

datatype set_result = CommitResult KvId versionstamp | CommitError

text \<open>\<^verbatim>\<open>String.prototype.substring\<close>: the indices are swapped when out of order.\<close>

definition substring :: "string \<Rightarrow> nat \<Rightarrow> nat \<Rightarrow> string" where
  "substring str a b = take (max a b - min a b) (drop (min a b) str)"

text \<open>
  The loop that divides the JSON text; it does not end when the limit is 0 and the text
  is not empty, so not returning is the value \<open>None\<close>.
\<close>

partial_function (option) jsonPartsLoop ::
  "nat \<Rightarrow> string \<Rightarrow> nat \<Rightarrow> string list \<Rightarrow> string list option" where
  "jsonPartsLoop limit json i jsonParts =
     (if i < length json
      then jsonPartsLoop limit json (i + limit) (jsonParts @ [substring json i (i + limit)])
      else Some jsonParts)"

text \<open>
  The callback given to \<^verbatim>\<open>useAtomics\<close>; the state it captures is
  \<^verbatim>\<open>index\<close> and \<^verbatim>\<open>keys\<close>.
\<close>

definition set_segment ::
  "'v LargeCollection \<Rightarrow> KvId \<Rightarrow> string \<Rightarrow> nat \<times> KvKey list \<Rightarrow> atomic_operation
     \<Rightarrow> atomic_operation \<times> (nat \<times> KvKey list)" where
  "set_segment lc docId str c a =
     (let (index, keys) = c;
          key = extendKey (segmentKey (l_keys lc)) [docId, VNum (int index)]
      in (op_set key (VStr str) a, (Suc index, keys @ [key])))"

text \<open>\<^verbatim>\<open>keys.map((key) => getDocumentId(key)!).filter((id) => typeof id !== "undefined")\<close>\<close>

definition entry_of_keys :: "KvKey list \<Rightarrow> kvvalue" where
  "entry_of_keys keys = largeDocumentEntry (List.map_filter getDocumentId keys)"

function LargeCollection_setDocument ::
  "'v platform \<Rightarrow> 'v LargeCollection \<Rightarrow> KvId option \<Rightarrow> 'v \<Rightarrow> SetOptions option \<Rightarrow> bool
     \<Rightarrow> kv \<Rightarrow> ((error + set_result) \<times> kv) option" where
  "LargeCollection_setDocument pf lc ident val options overwrite s =
     (case l_model_parse lc val of
        None \<Rightarrow> Some (Inl ModelParseError, s)
      | Some parsed \<Rightarrow>
          (let docId = (case ident of None \<Rightarrow> l_idGenerator lc parsed | Some i \<Rightarrow> i);
               idKey = extendKey (idKey (l_keys lc)) [docId];
               (check, s1) = atomic_commit (op_check [Check idKey None] atomic) s
           in if \<not> ok check \<and> \<not> overwrite then Some (Inr CommitError, s1)
              else
                (let (deleted, s2) =
                       (if \<not> ok check then LargeCollection_delete pf lc docId s1
                        else (Inr (), s1))
                 in case deleted of
                      Inl e \<Rightarrow> Some (Inl e, s2)
                    | Inr u \<Rightarrow>
                        (case jsonPartsLoop (LARGE_COLLECTION_STRING_LIMIT pf)
                                (JSON_stringify pf parsed) 0 [] of
                           None \<Rightarrow> None
                         | Some jsonParts \<Rightarrow>
                             (let (crs, (index, keys), s3) =
                                    useAtomics (ATOMIC_OPERATION_MUTATION_LIMIT pf) jsonParts
                                      (set_segment lc docId) (0, []) s2;
                                  success = (length crs > 0 \<and> list_all ok crs);
                                  retry = retry_of options
                              in if \<not> success
                                 then
                                   (let s4 = deleteKeys keys s3
                                    in if retry > 0
                                       then LargeCollection_setDocument pf lc (Some docId)
                                              parsed (with_retry options (retry - 1))
                                              overwrite s4
                                       else Some (Inr CommitError, s4))
                                 else
                                   (let entry = entry_of_keys keys;
                                        (cr, s4) = atomic_commit (op_set idKey entry atomic) s3
                                    in case cr of
                                         KvCommitError \<Rightarrow>
                                           (let s5 = deleteKeys keys s4
                                            in if retry > 0
                                               then LargeCollection_setDocument pf lc
                                                      (Some docId) parsed
                                                      (with_retry options (retry - 1))
                                                      overwrite s5
                                               else Some (Inr CommitError, s5))
                                       | KvCommitResult vs \<Rightarrow>
                                           Some (Inr (CommitResult docId vs), s4)))))))"
  by pat_completeness auto
termination
  by (relation "measure (\<lambda>(pf, lc, ident, val, options, overwrite, s). nat (retry_of options))")
    (auto simp: retry_of_def with_retry_def split: option.splits)

definition segK :: "'v LargeCollection \<Rightarrow> KvId \<Rightarrow> nat \<Rightarrow> KvKey" where
  "segK lc d j = extendKey (segmentKey (l_keys lc)) [d, VNum (int j)]"

fun mkey :: "mutation \<Rightarrow> KvKey" where
  "mkey (MSet k v) = k"
| "mkey (MDelete k) = k"
| "mkey (MSum k n) = k"

fun is_sum :: "mutation \<Rightarrow> bool" where
  "is_sum (MSum k n) = True"
| "is_sum other = False"

fun is_set :: "mutation \<Rightarrow> bool" where
  "is_set (MSet k v) = True"
| "is_set other = False"

fun is_delete :: "mutation \<Rightarrow> bool" where
  "is_delete (MDelete k) = True"
| "is_delete other = False"

definition seg_sets :: "'v LargeCollection \<Rightarrow> KvId \<Rightarrow> nat \<Rightarrow> string list \<Rightarrow> mutation list" where
  "seg_sets lc d i strs = map (\<lambda>j. MSet (segK lc d (i + j)) (VStr (strs ! j))) [0..<length strs]"

definition seg_deletes :: "'v LargeCollection \<Rightarrow> KvId \<Rightarrow> KvId list \<Rightarrow> mutation list" where
  "seg_deletes lc d segIds = map (\<lambda>segId. MDelete (extendKey (segmentKey (l_keys lc)) [d, segId])) segIds"

fun is_probe :: "KvKey \<Rightarrow> io_event \<Rightarrow> bool" where
  "is_probe k (ECommit cs ms b) = (cs = [Check k None] \<and> ms = [])"
| "is_probe k other = False"

fun writes_nothing :: "io_event \<Rightarrow> bool" where
  "writes_nothing (ECommit cs ms b) = (cs = [] \<and> list_all is_delete ms)"
| "writes_nothing other = True"

fun no_checks :: "io_event \<Rightarrow> bool" where
  "no_checks (ECommit cs ms b) = (cs = [])"
| "no_checks other = True"

definition segIdK :: "'v LargeCollection \<Rightarrow> KvId \<Rightarrow> KvId \<Rightarrow> KvKey" where
  "segIdK lc d segId = extendKey (segmentKey (l_keys lc)) [d, segId]"

definition docK :: "'v LargeCollection \<Rightarrow> KvId \<Rightarrow> KvKey" where
  "docK lc d = extendKey (idKey (l_keys lc)) [d]"

text \<open>
  One pass through the body of \<^verbatim>\<open>setDocument\<close>, up to its recursive call: it throws,
  does not return, returns a result, or has failed after its cleanup and hands the
  document id and the parsed value to the retry. \<open>write_attempt\<close> is the part after the
  probe and the delete.
\<close>

datatype 'v attempt_result =
    Thrown error kv
  | Diverged
  | Finished set_result kv
  | Failed KvId 'v kv

definition write_attempt ::
  "'v platform \<Rightarrow> 'v LargeCollection \<Rightarrow> KvId \<Rightarrow> 'v \<Rightarrow> kv \<Rightarrow> 'v attempt_result" where
  "write_attempt pf lc docId parsed s2 =
     (case jsonPartsLoop (LARGE_COLLECTION_STRING_LIMIT pf) (JSON_stringify pf parsed) 0 [] of
        None \<Rightarrow> Diverged
      | Some jsonParts \<Rightarrow>
          (let (crs, (index, keys), s3) =
                 useAtomics (ATOMIC_OPERATION_MUTATION_LIMIT pf) jsonParts
                   (set_segment lc docId) (0, []) s2
           in if \<not> (length crs > 0 \<and> list_all ok crs)
              then Failed docId parsed (deleteKeys keys s3)
              else
                (let (cr, s4) =
                       atomic_commit
                         (op_set (extendKey (idKey (l_keys lc)) [docId]) (entry_of_keys keys)
                            atomic) s3
                 in case cr of
                      KvCommitError \<Rightarrow> Failed docId parsed (deleteKeys keys s4)
                    | KvCommitResult vs \<Rightarrow> Finished (CommitResult docId vs) s4)))"

definition attempt ::
  "'v platform \<Rightarrow> 'v LargeCollection \<Rightarrow> KvId option \<Rightarrow> 'v \<Rightarrow> bool \<Rightarrow> kv
     \<Rightarrow> 'v attempt_result" where
  "attempt pf lc ident val overwrite s =
     (case l_model_parse lc val of
        None \<Rightarrow> Thrown ModelParseError s
      | Some parsed \<Rightarrow>
          (let docId = (case ident of None \<Rightarrow> l_idGenerator lc parsed | Some i \<Rightarrow> i);
               (check, s1) =
                 atomic_commit
                   (op_check [Check (extendKey (idKey (l_keys lc)) [docId]) None] atomic) s
           in if \<not> ok check \<and> \<not> overwrite then Finished CommitError s1
              else
                (let (deleted, s2) =
                       (if \<not> ok check then LargeCollection_delete pf lc docId s1
                        else (Inr (), s1))
                 in case deleted of
                      Inl e \<Rightarrow> Thrown e s2
                    | Inr u \<Rightarrow> write_attempt pf lc docId parsed s2)))"

fun parse_times :: "('v \<Rightarrow> 'v option) \<Rightarrow> nat \<Rightarrow> 'v \<Rightarrow> 'v option" where
  "parse_times f 0 v = Some v"
| "parse_times f (Suc n) v = (case f v of None \<Rightarrow> None | Some p \<Rightarrow> parse_times f n p)"

text \<open>
  The keys of a collection built by the constructor: the id prefix and the segment prefix
  have the same length, so no document key is a segment key.
\<close>

definition same_length_keys :: "'v LargeCollection \<Rightarrow> bool" where
  "same_length_keys lc = (length (idKey (l_keys lc)) = length (segmentKey (l_keys lc)))"

text \<open>
  The layout of a stored large document: the manifest at the id key lists the segment
  indices from 0 in order, and segment \<open>j\<close> holds the \<open>j\<close>-th slice of the JSON text.
\<close>

definition stored_document ::
  "'v platform \<Rightarrow> 'v LargeCollection \<Rightarrow> KvId \<Rightarrow> string \<Rightarrow> versionstamp \<Rightarrow> kv \<Rightarrow> bool" where
  "stored_document pf lc d json vs s =
     (let parts = slices (LARGE_COLLECTION_STRING_LIMIT pf) json
      in parts \<noteq> []
         \<and> entries s (docK lc d) =
             Some (largeDocumentEntry (map (\<lambda>j. VNum (int j)) [0..<length parts]), vs)
         \<and> (\<forall>j<length parts. \<exists>vsj. entries s (segK lc d j) = Some (VStr (parts ! j), vsj)))"

text \<open>
  The states that \<^verbatim>\<open>delete\<close> passes through once it has found a manifest: the state
  after the delete of the manifest key and the first \<open>n\<close> batches of segment deletes.
\<close>

definition delete_progress ::
  "'v platform \<Rightarrow> 'v LargeCollection \<Rightarrow> KvId \<Rightarrow> KvId list \<Rightarrow> kv \<Rightarrow> nat \<Rightarrow> kv" where
  "delete_progress pf lc d ids s n =
     snd (snd (run_batches (delete_segment lc d)
       (take n (slices (ATOMIC_OPERATION_MUTATION_LIMIT pf) ids)) ()
       (kv_delete (docK lc d) (snd (kv_get (docK lc d) s)))))"

text \<open>
  A stand-in for the JSON codec, to evaluate the model at concrete inputs: a value is a
  string, its text is the string in square brackets.
\<close>

definition bracket_stringify :: "string \<Rightarrow> string" where
  "bracket_stringify v = CHR ''['' # v @ [CHR '']'']"

definition bracket_parse :: "string \<Rightarrow> string option" where
  "bracket_parse str =
     (if 2 \<le> length str \<and> hd str = CHR ''['' \<and> last str = CHR '']''
      then Some (butlast (tl str)) else None)"

definition pf0 :: "string platform" where
  "pf0 = \<lparr>LARGE_COLLECTION_STRING_LIMIT = 2, ATOMIC_OPERATION_MUTATION_LIMIT = 2,
          JSON_stringify = bracket_stringify, JSON_parse = bracket_parse\<rparr>"

definition lc0 :: "string LargeCollection" where
  "lc0 = newLargeCollection [VStr ''docs''] Some (\<lambda>v. VStr ''generated'')"

definition store0 :: kv where
  "store0 =
     \<lparr>entries =
        [docK lc0 (VStr ''a'') \<mapsto> (largeDocumentEntry [VNum 0, VNum 1, VNum 2], 7),
         segK lc0 (VStr ''a'') 0 \<mapsto> (VStr ''[x'', 4),
         segK lc0 (VStr ''a'') 1 \<mapsto> (VStr ''yz'', 5),
         segK lc0 (VStr ''a'') 2 \<mapsto> (VStr '']'', 6)],
      clock = 8, faults = [], trace = []\<rparr>"

definition empty_store :: kv where
  "empty_store = \<lparr>entries = Map.empty, clock = 0, faults = [], trace = []\<rparr>"

definition docId_of :: "'v LargeCollection \<Rightarrow> KvId option \<Rightarrow> 'v \<Rightarrow> KvId" where
  "docId_of lc ident parsed = (case ident of None \<Rightarrow> l_idGenerator lc parsed | Some i \<Rightarrow> i)"

definition probes :: "KvKey \<Rightarrow> kv \<Rightarrow> nat" where
  "probes k s = length (filter (is_probe k) (trace s))"

text \<open>The state after storing the value \<open>xyz\<close> under the id \<open>a\<close> in the empty store.\<close>

definition after_set :: kv where
  "after_set =
     snd (the (LargeCollection_setDocument pf0 lc0 (Some (VStr ''a'')) ''xyz'' None False
       empty_store))"

text \<open>A store that refuses the first batch of segment writes of each of three attempts.\<close>

definition refusing_store :: kv where
  "refusing_store = empty_store\<lparr>faults := [False, True, False, False, True, False, False, True]\<rparr>"

text \<open>What \<^verbatim>\<open>kvGetMany\<close> reads at a key, and the string of a segment.\<close>

definition seg_value :: "kv \<Rightarrow> KvKey \<Rightarrow> kvvalue" where
  "seg_value s k = (case entries s k of None \<Rightarrow> VNull | Some (v, vs) \<Rightarrow> v)"

definition segment_text :: "kv \<Rightarrow> KvKey \<Rightarrow> string" where
  "segment_text s k = (case entries s k of Some (VStr str, vs) \<Rightarrow> str | _ \<Rightarrow> [])"

text \<open>
  A collection whose model appends a mark to the value it parses (a parse that is not
  idempotent), a store that refuses the first batch of segment writes, and the state after
  \<^verbatim>\<open>setDocument\<close> with one retry on it.
\<close>

definition lc1 :: "string LargeCollection" where
  "lc1 = newLargeCollection [VStr ''docs''] (\<lambda>v. Some (v @ ''!'')) (\<lambda>v. VStr ''generated'')"

definition flaky_store :: kv where
  "flaky_store = empty_store\<lparr>faults := [False, True]\<rparr>"

definition after_retry :: kv where
  "after_retry =
     snd (the (LargeCollection_setDocument pf0 lc1 (Some (VStr ''a'')) ''x''
       (Some \<lparr>retry = Some 1\<rparr>) False flaky_store))"

text \<open>A store whose manifest lists two segments, the first of them the empty string.\<close>

definition store1 :: kv where
  "store1 =
     \<lparr>entries =
        [docK lc0 (VStr ''b'') \<mapsto> (largeDocumentEntry [VNum 0, VNum 1], 3),
         segK lc0 (VStr ''b'') 0 \<mapsto> (VStr [], 1),
         segK lc0 (VStr ''b'') 1 \<mapsto> (VStr ''[a]'', 2)],
      clock = 4, faults = [], trace = []\<rparr>"

text \<open>The state after a probe of the key \<open>k\<close> that was not ok.\<close>

definition probe_failed :: "KvKey \<Rightarrow> kv \<Rightarrow> kv" where
  "probe_failed k s =
     s\<lparr>faults := tl (faults s), trace := trace s @ [ECommit [Check k None] [] False]\<rparr>"

text \<open>The state after overwriting the document \<open>a\<close> of \<open>store0\<close> with the value \<open>q\<close>.\<close>

definition after_overwrite :: kv where
  "after_overwrite =
     snd (the (LargeCollection_setDocument pf0 lc0 (Some (VStr ''a'')) ''q'' None True store0))"

section \<open>The atomic builder (atomic_builder.ts)\<close>

text \<open>
  What the builder reads of a collection: \<^verbatim>\<open>collectionIdKey\<close>, and for an
  \<^verbatim>\<open>IndexableCollection\<close> (the test \<^verbatim>\<open>instanceof IndexableCollection\<close>) the two index
  prefixes and the two lists of indexed fields.
\<close>

record IndexableFields =
  primaryCollectionIndexKey :: KvKey
  secondaryCollectionIndexKey :: KvKey
  primaryIndexList :: "string list"
  secondaryIndexList :: "string list"

record Collection =
  collectionIdKey :: KvKey
  indexable :: "IndexableFields option"

text \<open>
  Modelled from the spec: the keys of a collection (collection.ts and
  indexable_collection.ts are not under src/). Within a collection rooted at the path
  \<open>key\<close> the id entries, the primary index and the secondary index live under the markers
  of the namespace layout (spec 3).
\<close>

definition newCollection :: "KvKey \<Rightarrow> Collection" where
  "newCollection key =
     \<lparr>collectionIdKey = extendKey [KVDEX_KEY_PREFIX] (key @ [ID_KEY_PREFIX]),
      indexable = None\<rparr>"

definition newIndexableCollection :: "KvKey \<Rightarrow> string list \<Rightarrow> string list \<Rightarrow> Collection" where
  "newIndexableCollection key primaryFields secondaryFields =
     \<lparr>collectionIdKey = extendKey [KVDEX_KEY_PREFIX] (key @ [ID_KEY_PREFIX]),
      indexable = Some
        \<lparr>primaryCollectionIndexKey =
           extendKey [KVDEX_KEY_PREFIX] (key @ [PRIMARY_INDEX_KEY_PREFIX]),
         secondaryCollectionIndexKey =
           extendKey [KVDEX_KEY_PREFIX] (key @ [SECONDARY_INDEX_KEY_PREFIX]),
         primaryIndexList = primaryFields,
         secondaryIndexList = secondaryFields\<rparr>\<rparr>"

text \<open>
  \<^verbatim>\<open>_data[index]\<close> on a document (a \<^verbatim>\<open>Model\<close>, an object): \<open>None\<close> is
  \<^verbatim>\<open>undefined\<close>. A document is the list of its own properties; the properties that an
  object inherits (\<^verbatim>\<open>constructor\<close>, \<^verbatim>\<open>toString\<close>) are not index fields of a model. \<^verbatim>\<open>{ ..._data, __id__: id }\<close> keeps the fields in order and sets
  \<^verbatim>\<open>__id__\<close>, in place when the document has that field already.
\<close>

definition field_of :: "kvvalue \<Rightarrow> string \<Rightarrow> kvvalue option" where
  "field_of data index = (case data of VObj fs \<Rightarrow> map_of fs index | _ \<Rightarrow> None)"

fun set_field :: "string \<Rightarrow> kvvalue \<Rightarrow> (string \<times> kvvalue) list \<Rightarrow> (string \<times> kvvalue) list" where
  "set_field name v [] = [(name, v)]"
| "set_field name v ((name', v') # fs) =
     (if name' = name then (name, v) # fs else (name', v') # set_field name v fs)"

definition indexEntry :: "kvvalue \<Rightarrow> KvId \<Rightarrow> kvvalue" where
  "indexEntry data ident =
     (case data of
        VObj fs \<Rightarrow> VObj (set_field ''__id__'' ident fs)
      | _ \<Rightarrow> VObj [(''__id__'', ident)])"

text \<open>What a prepare closure returns, and the accumulated \<^verbatim>\<open>Operations\<close> (types.ts).\<close>

record PreparedIndexDelete =
  pd_id :: KvId
  pd_data :: kvvalue
  pd_index :: IndexableFields

record Operations =
  atomicFns :: "(atomic_operation \<Rightarrow> atomic_operation) list"
  prepareDeleteFns :: "(kv \<Rightarrow> PreparedIndexDelete \<times> kv) list"
  indexDeleteCollectionKeys :: "KvKey list"
  indexAddCollectionKeys :: "KvKey list"

text \<open>
  The builder: the store is the state passed to \<^verbatim>\<open>commit\<close>, and the schema is read only
  by \<^verbatim>\<open>select\<close>, whose selector is modelled by the collection it returns. The methods
  update the operations in place and return the builder; the model returns the new builder.
\<close>

record AtomicBuilder =
  operations :: Operations
  collection :: Collection

definition AtomicBuilder_new :: "Collection \<Rightarrow> AtomicBuilder" where
  "AtomicBuilder_new c =
     \<lparr>operations =
        \<lparr>atomicFns = [], prepareDeleteFns = [], indexDeleteCollectionKeys = [],
         indexAddCollectionKeys = []\<rparr>,
      collection = c\<rparr>"

definition AtomicBuilder_select :: "AtomicBuilder \<Rightarrow> Collection \<Rightarrow> AtomicBuilder" where
  "AtomicBuilder_select b c = b\<lparr>collection := c\<rparr>"

text \<open>The two \<^verbatim>\<open>forEach\<close> loops over the index lists, in \<^verbatim>\<open>add\<close>, \<^verbatim>\<open>set\<close> and \<^verbatim>\<open>mutate\<close>.\<close>

fun primaryIndexFns ::
  "IndexableFields \<Rightarrow> KvId \<Rightarrow> kvvalue \<Rightarrow> string list
     \<Rightarrow> (atomic_operation \<Rightarrow> atomic_operation) list" where
  "primaryIndexFns ix ident data [] = []"
| "primaryIndexFns ix ident data (index # rest) =
     (case field_of data index of
        None \<Rightarrow> primaryIndexFns ix ident data rest
      | Some indexValue \<Rightarrow>
          (let indexKey = extendKey (primaryCollectionIndexKey ix) [VStr index, indexValue];
               entry = indexEntry data ident
           in (\<lambda>op. op_check [Check indexKey None] (op_set indexKey entry op))
              # primaryIndexFns ix ident data rest))"

fun secondaryIndexFns ::
  "IndexableFields \<Rightarrow> KvId \<Rightarrow> kvvalue \<Rightarrow> string list
     \<Rightarrow> (atomic_operation \<Rightarrow> atomic_operation) list" where
  "secondaryIndexFns ix ident data [] = []"
| "secondaryIndexFns ix ident data (index # rest) =
     (case field_of data index of
        None \<Rightarrow> secondaryIndexFns ix ident data rest
      | Some indexValue \<Rightarrow>
          (let indexKey =
                 extendKey (secondaryCollectionIndexKey ix) [VStr index, indexValue, ident]
           in (\<lambda>op. op_check [Check indexKey None] (op_set indexKey data op))
              # secondaryIndexFns ix ident data rest))"

definition pushAtomicFns ::
  "(atomic_operation \<Rightarrow> atomic_operation) list \<Rightarrow> Operations \<Rightarrow> Operations" where
  "pushAtomicFns fns ops = ops\<lparr>atomicFns := atomicFns ops @ fns\<rparr>"

text \<open>
  \<^verbatim>\<open>set(id, data)\<close>; \<^verbatim>\<open>add(data)\<close> is the same body with the id that
  \<^verbatim>\<open>generateId()\<close> returns, which the model takes as an argument.
\<close>

definition AtomicBuilder_set :: "AtomicBuilder \<Rightarrow> KvId \<Rightarrow> kvvalue \<Rightarrow> AtomicBuilder" where
  "AtomicBuilder_set b ident data =
     (let collectionKey = collectionIdKey (collection b);
          idKey = extendKey collectionKey [ident];
          ops1 = pushAtomicFns [\<lambda>op. op_set idKey data (op_check [Check idKey None] op)]
                   (operations b)
      in case indexable (collection b) of
           None \<Rightarrow> b\<lparr>operations := ops1\<rparr>
         | Some ix \<Rightarrow>
             b\<lparr>operations :=
                 pushAtomicFns (secondaryIndexFns ix ident data (secondaryIndexList ix))
                   (pushAtomicFns (primaryIndexFns ix ident data (primaryIndexList ix))
                      (ops1\<lparr>indexAddCollectionKeys :=
                               indexAddCollectionKeys ops1 @ [collectionKey]\<rparr>))\<rparr>)"

definition AtomicBuilder_add :: "AtomicBuilder \<Rightarrow> KvId \<Rightarrow> kvvalue \<Rightarrow> AtomicBuilder" where
  "AtomicBuilder_add b generatedId data =
     (let collectionKey = collectionIdKey (collection b);
          ident = generatedId;
          idKey = extendKey collectionKey [ident];
          ops1 = pushAtomicFns [\<lambda>op. op_set idKey data (op_check [Check idKey None] op)]
                   (operations b)
      in case indexable (collection b) of
           None \<Rightarrow> b\<lparr>operations := ops1\<rparr>
         | Some ix \<Rightarrow>
             b\<lparr>operations :=
                 pushAtomicFns (secondaryIndexFns ix ident data (secondaryIndexList ix))
                   (pushAtomicFns (primaryIndexFns ix ident data (primaryIndexList ix))
                      (ops1\<lparr>indexAddCollectionKeys :=
                               indexAddCollectionKeys ops1 @ [collectionKey]\<rparr>))\<rparr>)"

text \<open>The prepare closure of \<^verbatim>\<open>delete\<close> and of a delete mutation: it reads the id key.\<close>

definition prepareDelete ::
  "KvKey \<Rightarrow> KvId \<Rightarrow> IndexableFields \<Rightarrow> kv \<Rightarrow> PreparedIndexDelete \<times> kv" where
  "prepareDelete key ident ix s =
     (let (doc, s1) = kv_get key s
      in (\<lparr>pd_id = ident,
           pd_data = (if fst doc = VNull then VObj [] else fst doc),
           pd_index = ix\<rparr>, s1))"

definition AtomicBuilder_delete :: "AtomicBuilder \<Rightarrow> KvId \<Rightarrow> AtomicBuilder" where
  "AtomicBuilder_delete b ident =
     (let collectionKey = collectionIdKey (collection b);
          idKey = extendKey collectionKey [ident];
          ops1 = pushAtomicFns [\<lambda>op. op_delete idKey op] (operations b)
      in case indexable (collection b) of
           None \<Rightarrow> b\<lparr>operations := ops1\<rparr>
         | Some ix \<Rightarrow>
             b\<lparr>operations :=
                 ops1\<lparr>indexDeleteCollectionKeys :=
                        indexDeleteCollectionKeys ops1 @ [collectionKey],
                      prepareDeleteFns :=
                        prepareDeleteFns ops1 @ [prepareDelete idKey ident ix]\<rparr>\<rparr>)"

definition AtomicBuilder_check ::
  "AtomicBuilder \<Rightarrow> (KvId \<times> versionstamp option) list \<Rightarrow> AtomicBuilder" where
  "AtomicBuilder_check b atomicChecks =
     (let cs = map (\<lambda>(ident, versionstamp).
                      Check (extendKey (collectionIdKey (collection b)) [ident]) versionstamp)
                 atomicChecks
      in b\<lparr>operations := pushAtomicFns [\<lambda>op. op_check cs op] (operations b)\<rparr>)"

definition AtomicBuilder_sum :: "AtomicBuilder \<Rightarrow> KvId \<Rightarrow> 64 word \<Rightarrow> AtomicBuilder" where
  "AtomicBuilder_sum b ident n =
     (let idKey = extendKey (collectionIdKey (collection b)) [ident]
      in b\<lparr>operations := pushAtomicFns [\<lambda>op. op_sum idKey n op] (operations b)\<rparr>)"

text \<open>\<^verbatim>\<open>AtomicMutation\<close>: \<^verbatim>\<open>{ id, type: "set" | "delete" | "sum", value? }\<close>.\<close>

datatype AtomicMutation =
    AMSet KvId kvvalue
  | AMDelete KvId
  | AMSum KvId "64 word"

fun kvMutation :: "KvKey \<Rightarrow> AtomicMutation \<Rightarrow> mutation" where
  "kvMutation prefix_key (AMSet ident v) = MSet (extendKey prefix_key [ident]) v"
| "kvMutation prefix_key (AMDelete ident) = MDelete (extendKey prefix_key [ident])"
| "kvMutation prefix_key (AMSum ident n) = MSum (extendKey prefix_key [ident]) n"

text \<open>The body of \<^verbatim>\<open>kvMutations.forEach\<close> in \<^verbatim>\<open>mutate\<close>.\<close>

fun mutateEach :: "Collection \<Rightarrow> Operations \<Rightarrow> mutation \<Rightarrow> Operations" where
  "mutateEach c ops (MSet key v) =
     (let ops1 = pushAtomicFns [\<lambda>op. op_check [Check key None] op] ops
      in case indexable c of
           None \<Rightarrow> ops1
         | Some ix \<Rightarrow>
             (case getDocumentId key of
                None \<Rightarrow> ops1
              | Some ident \<Rightarrow>
                  pushAtomicFns (secondaryIndexFns ix ident v (secondaryIndexList ix))
                    (pushAtomicFns (primaryIndexFns ix ident v (primaryIndexList ix))
                       (ops1\<lparr>indexAddCollectionKeys :=
                                indexAddCollectionKeys ops1 @ [collectionIdKey c]\<rparr>))))"
| "mutateEach c ops (MDelete key) =
     (case indexable c of
        None \<Rightarrow> ops
      | Some ix \<Rightarrow>
          (case getDocumentId key of
             None \<Rightarrow> ops
           | Some ident \<Rightarrow>
               ops\<lparr>indexDeleteCollectionKeys :=
                      indexDeleteCollectionKeys ops @ [collectionIdKey c],
                    prepareDeleteFns :=
                      prepareDeleteFns ops @ [prepareDelete key ident ix]\<rparr>))"
| "mutateEach c ops (MSum key n) = ops"

definition AtomicBuilder_mutate :: "AtomicBuilder \<Rightarrow> AtomicMutation list \<Rightarrow> AtomicBuilder" where
  "AtomicBuilder_mutate b muts =
     (let kvMutations = map (kvMutation (collectionIdKey (collection b))) muts;
          ops1 = pushAtomicFns [\<lambda>op. op_mutate kvMutations op] (operations b)
      in b\<lparr>operations := foldl (mutateEach (collection b)) ops1 kvMutations\<rparr>)"

text \<open>
  \<^verbatim>\<open>commit\<close>. The prepare closures are started in order and each makes one read; the
  cleanup atomics are built and committed in order, their results discarded.
\<close>

fun runPrepares ::
  "(kv \<Rightarrow> PreparedIndexDelete \<times> kv) list \<Rightarrow> kv \<Rightarrow> PreparedIndexDelete list \<times> kv" where
  "runPrepares [] s = ([], s)"
| "runPrepares (fn # fns) s =
     (let (pd, s1) = fn s; (pds, s2) = runPrepares fns s1 in (pd # pds, s2))"

fun primaryIndexDeletes ::
  "PreparedIndexDelete \<Rightarrow> string list \<Rightarrow> atomic_operation \<Rightarrow> atomic_operation" where
  "primaryIndexDeletes pd [] a = a"
| "primaryIndexDeletes pd (index # rest) a =
     (case field_of (pd_data pd) index of
        None \<Rightarrow> primaryIndexDeletes pd rest a
      | Some indexValue \<Rightarrow>
          primaryIndexDeletes pd rest
            (op_delete (extendKey (primaryCollectionIndexKey (pd_index pd))
                          [VStr index, indexValue]) a))"

fun secondaryIndexDeletes ::
  "PreparedIndexDelete \<Rightarrow> string list \<Rightarrow> atomic_operation \<Rightarrow> atomic_operation" where
  "secondaryIndexDeletes pd [] a = a"
| "secondaryIndexDeletes pd (index # rest) a =
     (case field_of (pd_data pd) index of
        None \<Rightarrow> secondaryIndexDeletes pd rest a
      | Some indexValue \<Rightarrow>
          secondaryIndexDeletes pd rest
            (op_delete (extendKey (secondaryCollectionIndexKey (pd_index pd))
                          [VStr index, indexValue, pd_id pd]) a))"

definition cleanupAtomic :: "PreparedIndexDelete \<Rightarrow> atomic_operation" where
  "cleanupAtomic pd =
     secondaryIndexDeletes pd (secondaryIndexList (pd_index pd))
       (primaryIndexDeletes pd (primaryIndexList (pd_index pd)) atomic)"

fun runCleanups :: "PreparedIndexDelete list \<Rightarrow> kv \<Rightarrow> kv" where
  "runCleanups [] s = s"
| "runCleanups (pd # pds) s = runCleanups pds (snd (atomic_commit (cleanupAtomic pd) s))"

definition atomicOperation :: "Operations \<Rightarrow> atomic_operation" where
  "atomicOperation ops = foldl (\<lambda>op opFn. opFn op) atomic (atomicFns ops)"

definition AtomicBuilder_commit :: "AtomicBuilder \<Rightarrow> kv \<Rightarrow> commit \<times> kv" where
  "AtomicBuilder_commit b s =
     (if list_ex (\<lambda>addKey. list_ex (\<lambda>deleteKey. keyEq addKey deleteKey)
                    (indexDeleteCollectionKeys (operations b)))
           (indexAddCollectionKeys (operations b))
      then (KvCommitError, s)
      else
        (let (preparedIndexDeletes, s1) = runPrepares (prepareDeleteFns (operations b)) s;
             (commitResult, s2) = atomic_commit (atomicOperation (operations b)) s1
         in if ok commitResult then (commitResult, runCleanups preparedIndexDeletes s2)
            else (commitResult, s2)))"

text \<open>
  The calls made on a builder, to speak of the operations a builder has accumulated:
  a builder is what a sequence of calls makes of a new builder.
\<close>

datatype builder_call =
    CallSelect Collection
  | CallAdd KvId kvvalue
  | CallSet KvId kvvalue
  | CallDelete KvId
  | CallCheck "(KvId \<times> versionstamp option) list"
  | CallSum KvId "64 word"
  | CallMutate "AtomicMutation list"

fun apply_call :: "AtomicBuilder \<Rightarrow> builder_call \<Rightarrow> AtomicBuilder" where
  "apply_call b (CallSelect c) = AtomicBuilder_select b c"
| "apply_call b (CallAdd generatedId data) = AtomicBuilder_add b generatedId data"
| "apply_call b (CallSet ident data) = AtomicBuilder_set b ident data"
| "apply_call b (CallDelete ident) = AtomicBuilder_delete b ident"
| "apply_call b (CallCheck atomicChecks) = AtomicBuilder_check b atomicChecks"
| "apply_call b (CallSum ident n) = AtomicBuilder_sum b ident n"
| "apply_call b (CallMutate muts) = AtomicBuilder_mutate b muts"

definition run_calls :: "AtomicBuilder \<Rightarrow> builder_call list \<Rightarrow> AtomicBuilder" where
  "run_calls b calls = foldl apply_call b calls"

fun is_set_mutation :: "AtomicMutation \<Rightarrow> bool" where
  "is_set_mutation (AMSet ident v) = True"
| "is_set_mutation other = False"

fun is_delete_mutation :: "AtomicMutation \<Rightarrow> bool" where
  "is_delete_mutation (AMDelete ident) = True"
| "is_delete_mutation other = False"

text \<open>The calls that add index entries, and those that delete them.\<close>

fun adds_index :: "builder_call \<Rightarrow> bool" where
  "adds_index (CallAdd generatedId data) = True"
| "adds_index (CallSet ident data) = True"
| "adds_index (CallMutate muts) = list_ex is_set_mutation muts"
| "adds_index other = False"

fun deletes_index :: "builder_call \<Rightarrow> bool" where
  "deletes_index (CallDelete ident) = True"
| "deletes_index (CallMutate muts) = list_ex is_delete_mutation muts"
| "deletes_index other = False"

text \<open>The collection and the documents of the spec's first scenario.\<close>

definition users :: Collection where
  "users = newIndexableCollection [VStr ''users''] [''email''] [''role'']"

definition alice :: kvvalue where
  "alice = VObj [(''name'', VStr ''a''), (''email'', VStr ''x'')]"

definition bob :: kvvalue where
  "bob = VObj [(''name'', VStr ''b''), (''email'', VStr ''x'')]"

definition mixed_calls :: "builder_call list" where
  "mixed_calls =
     [CallMutate [AMSum (VStr ''n'') 1, AMDelete (VStr ''u1'')],
      CallSelect (newCollection [VStr ''log'']),
      CallSet (VStr ''e1'') (VStr ''entry''),
      CallSelect users,
      CallAdd (VStr ''u2'') alice]"

text \<open>The index keys that the two loops over the index lists make, in order.\<close>

fun primaryIndexKeys :: "IndexableFields \<Rightarrow> kvvalue \<Rightarrow> string list \<Rightarrow> KvKey list" where
  "primaryIndexKeys ix data [] = []"
| "primaryIndexKeys ix data (index # rest) =
     (case field_of data index of
        None \<Rightarrow> primaryIndexKeys ix data rest
      | Some indexValue \<Rightarrow>
          extendKey (primaryCollectionIndexKey ix) [VStr index, indexValue]
            # primaryIndexKeys ix data rest)"

fun secondaryIndexKeys ::
  "IndexableFields \<Rightarrow> KvId \<Rightarrow> kvvalue \<Rightarrow> string list \<Rightarrow> KvKey list" where
  "secondaryIndexKeys ix ident data [] = []"
| "secondaryIndexKeys ix ident data (index # rest) =
     (case field_of data index of
        None \<Rightarrow> secondaryIndexKeys ix ident data rest
      | Some indexValue \<Rightarrow>
          extendKey (secondaryCollectionIndexKey ix) [VStr index, indexValue, ident]
            # secondaryIndexKeys ix ident data rest)"

fun ckey :: "atomic_check \<Rightarrow> KvKey" where
  "ckey (Check k expected) = k"

text \<open>A prepare closure that reads only.\<close>

definition reads_only :: "(kv \<Rightarrow> PreparedIndexDelete \<times> kv) \<Rightarrow> bool" where
  "reads_only fn =
     (\<forall>s. entries (snd (fn s)) = entries s \<and> clock (snd (fn s)) = clock s
          \<and> faults (snd (fn s)) = faults s)"

definition log_calls :: "builder_call list" where
  "log_calls =
     [CallSelect (newCollection [VStr ''log'']), CallSet (VStr ''e1'') (VStr ''entry'')]"

definition first_calls :: "builder_call list" where
  "first_calls =
     [CallSelect (newCollection [VStr ''log'']), CallSet (VStr ''e1'') (VStr ''entry''),
      CallSelect users, CallAdd (VStr ''u1'') alice, CallSum (VStr ''n'') 1]"

definition second_calls :: "builder_call list" where
  "second_calls =
     [CallSet (VStr ''u2'') bob, CallSelect (newCollection [VStr ''log'']),
      CallDelete (VStr ''e1'')]"

definition after_alice :: kv where
  "after_alice =
     snd (AtomicBuilder_commit (run_calls (AtomicBuilder_new users) first_calls) empty_store)"

text \<open>What a call appends to the atomic operation: checks and mutations, in order.\<close>

definition op_append ::
  "atomic_operation \<Rightarrow> atomic_check list \<Rightarrow> mutation list \<Rightarrow> atomic_operation" where
  "op_append a cs ms = a\<lparr>checks := checks a @ cs, mutations := mutations a @ ms\<rparr>"

definition carol :: kvvalue where
  "carol = VObj [(''name'', VStr ''c'')]"

definition dave :: kvvalue where
  "dave = VObj [(''name'', VStr ''d''), (''role'', VStr ''admin'')]"


section \<open>Lemmas: slicing\<close>

declare slices.simps [simp del]

lemma slices_Nil [simp]: "slices n [] = []"
  by (simp add: slices.simps)

lemma slices_zero [simp]: "slices 0 xs = []"
  by (simp add: slices.simps)

lemma slices_step: "xs \<noteq> [] \<Longrightarrow> 0 < n \<Longrightarrow> slices n xs = take n xs # slices n (drop n xs)"
  by (subst slices.simps) simp

lemma concat_slices: "0 < n \<Longrightarrow> concat (slices n xs) = xs"
proof (induction n xs rule: slices.induct)
  case (1 n xs)
  show ?case
  proof (cases "xs = []")
    case True
    then show ?thesis by simp
  next
    case False
    with 1 show ?thesis by (simp add: slices_step)
  qed
qed

lemma slices_nonempty: "ys \<in> set (slices n xs) \<Longrightarrow> ys \<noteq> []"
proof (induction n xs rule: slices.induct)
  case (1 n xs)
  show ?case
  proof (cases "xs = [] \<or> n = 0")
    case True
    with 1(2) show ?thesis by auto
  next
    case False
    with 1 show ?thesis by (auto simp: slices_step)
  qed
qed

lemma slices_bounded: "ys \<in> set (slices n xs) \<Longrightarrow> length ys \<le> n"
proof (induction n xs rule: slices.induct)
  case (1 n xs)
  show ?case
  proof (cases "xs = [] \<or> n = 0")
    case True
    with 1(2) show ?thesis by auto
  next
    case False
    with 1 show ?thesis by (auto simp: slices_step)
  qed
qed

lemma ceil_div_step:
  fixes m n :: nat
  assumes "0 < n" "0 < m"
  shows "(m + n - 1) div n = Suc ((m - n + n - 1) div n)"
proof -
  obtain k where k: "m = Suc k" using assms(2) by (cases m) auto
  have "(k + n) div n = k div n + 1"
    using div_add_self2 [of n k] assms(1) by simp
  then have l: "(m + n - 1) div n = Suc (k div n)"
    by (simp add: k)
  show ?thesis
  proof (cases "n \<le> m")
    case True
    then have "m - n + n - 1 = k" by (simp add: k)
    with l show ?thesis by simp
  next
    case False
    then have "m - n + n - 1 = n - 1" by simp
    moreover have "(n - 1) div n = 0" using assms by simp
    moreover have "k div n = 0" using False k by simp
    ultimately show ?thesis using l by simp
  qed
qed

lemma length_slices: "0 < n \<Longrightarrow> length (slices n xs) = (length xs + n - 1) div n"
proof (induction n xs rule: slices.induct)
  case (1 n xs)
  show ?case
  proof (cases "xs = []")
    case True
    with 1(2) show ?thesis by simp
  next
    case False
    then have pos: "0 < length xs" by simp
    have ih: "length (slices n (drop n xs)) = (length (drop n xs) + n - 1) div n"
      using 1 False by blast
    have "length (slices n xs) = Suc (length (slices n (drop n xs)))"
      using slices_step [OF False 1(2)] by simp
    also have "\<dots> = Suc ((length xs - n + n - 1) div n)"
      by (simp only: ih length_drop)
    also have "\<dots> = (length xs + n - 1) div n"
      using ceil_div_step [OF 1(2) pos] by simp
    finally show ?thesis .
  qed
qed

lemma jsonPartsLoop_slices:
  "0 < limit \<Longrightarrow> jsonPartsLoop limit json i acc = Some (acc @ slices limit (drop i json))"
proof (induction "length json - i" arbitrary: i acc rule: less_induct)
  case less
  show ?case
  proof (cases "i < length json")
    case True
    have step: "jsonPartsLoop limit json i acc =
        jsonPartsLoop limit json (i + limit) (acc @ [substring json i (i + limit)])"
      using True by (subst jsonPartsLoop.simps) simp
    have "length json - (i + limit) < length json - i" using True less.prems by simp
    from less.hyps [OF this less.prems]
    have "jsonPartsLoop limit json (i + limit) (acc @ [substring json i (i + limit)]) =
        Some ((acc @ [substring json i (i + limit)]) @ slices limit (drop (i + limit) json))" .
    moreover have "substring json i (i + limit) = take limit (drop i json)"
      by (simp add: substring_def)
    moreover have "slices limit (drop i json) =
        take limit (drop i json) # slices limit (drop (i + limit) json)"
      using True less.prems by (simp add: slices_step add.commute)
    ultimately show ?thesis using step by simp
  next
    case False
    then show ?thesis by (subst jsonPartsLoop.simps) simp
  qed
qed

section \<open>Lemmas: commits and batches\<close>

lemma segK_inj [simp]: "(segK lc d i = segK lc d j) = (i = j)"
  by (simp add: segK_def extendKey_def)

lemma apply_mutations_other:
  "apply_mutations vs ms es = Some es' \<Longrightarrow> k \<notin> mkey ` set ms \<Longrightarrow> es' k = es k"
proof (induction ms arbitrary: es)
  case Nil
  then show ?case by simp
next
  case (Cons m ms)
  from Cons.prems(1) obtain es1 where
    m: "apply_mutation vs m es = Some es1" and r: "apply_mutations vs ms es1 = Some es'"
    by (auto split: option.splits)
  have "es' k = es1 k" using Cons.IH [OF r] Cons.prems(2) by simp
  moreover have "es1 k = es k"
    using m Cons.prems(2) by (cases m) (auto split: option.splits kvvalue.splits)
  ultimately show ?case by simp
qed

lemma apply_mutations_total:
  "\<forall>m\<in>set ms. \<not> is_sum m \<Longrightarrow> \<exists>es'. apply_mutations vs ms es = Some es'"
proof (induction ms arbitrary: es)
  case Nil
  then show ?case by simp
next
  case (Cons m ms)
  then show ?case by (cases m) auto
qed

lemma apply_mutations_shrink:
  "apply_mutations vs ms es = Some es' \<Longrightarrow> \<forall>m\<in>set ms. is_delete m
     \<Longrightarrow> es' k = None \<or> es' k = es k"
proof (induction ms arbitrary: es)
  case Nil
  then show ?case by simp
next
  case (Cons m ms)
  from Cons.prems(1) obtain es1 where
    m: "apply_mutation vs m es = Some es1" and r: "apply_mutations vs ms es1 = Some es'"
    by (auto split: option.splits)
  have "es' k = None \<or> es' k = es1 k" using Cons.IH [OF r] Cons.prems(2) by simp
  moreover have "es1 k = None \<or> es1 k = es k"
    using m Cons.prems(2) by (cases m) (auto split: if_splits)
  ultimately show ?case by auto
qed

lemma apply_mutations_deleted:
  "apply_mutations vs ms es = Some es' \<Longrightarrow> \<forall>m\<in>set ms. is_delete m
     \<Longrightarrow> k \<in> mkey ` set ms \<Longrightarrow> es' k = None"
proof (induction ms arbitrary: es)
  case Nil
  then show ?case by simp
next
  case (Cons m ms)
  from Cons.prems(1) obtain es1 where
    m: "apply_mutation vs m es = Some es1" and r: "apply_mutations vs ms es1 = Some es'"
    by (auto split: option.splits)
  show ?case
  proof (cases "k \<in> mkey ` set ms")
    case True
    then show ?thesis using Cons.IH [OF r] Cons.prems(2) by simp
  next
    case False
    then have "mkey m = k" using Cons.prems(3) by auto
    then have "es1 k = None" using m Cons.prems(2) by (cases m) auto
    moreover have "es' k = es1 k" using apply_mutations_other [OF r False] .
    ultimately show ?thesis by simp
  qed
qed

lemma apply_mutations_present:
  "apply_mutations vs ms es = Some es' \<Longrightarrow> \<forall>m\<in>set ms. is_set m
     \<Longrightarrow> k \<in> mkey ` set ms \<Longrightarrow> \<exists>v. es' k = Some (v, vs)"
proof (induction ms arbitrary: es)
  case Nil
  then show ?case by simp
next
  case (Cons m ms)
  from Cons.prems(1) obtain es1 where
    m: "apply_mutation vs m es = Some es1" and r: "apply_mutations vs ms es1 = Some es'"
    by (auto split: option.splits)
  show ?case
  proof (cases "k \<in> mkey ` set ms")
    case True
    then show ?thesis using Cons.IH [OF r] Cons.prems(2) by simp
  next
    case False
    then have "mkey m = k" using Cons.prems(3) by auto
    then have "\<exists>v. es1 k = Some (v, vs)" using m Cons.prems(2) by (cases m) auto
    moreover have "es' k = es1 k" using apply_mutations_other [OF r False] .
    ultimately show ?thesis by simp
  qed
qed

lemma apply_mutations_set_value:
  "apply_mutations vs ms es = Some es' \<Longrightarrow> distinct (map mkey ms) \<Longrightarrow> MSet k v \<in> set ms
     \<Longrightarrow> es' k = Some (v, vs)"
proof (induction ms arbitrary: es)
  case Nil
  then show ?case by simp
next
  case (Cons m ms)
  from Cons.prems(1) obtain es1 where
    m: "apply_mutation vs m es = Some es1" and r: "apply_mutations vs ms es1 = Some es'"
    by (auto split: option.splits)
  show ?case
  proof (cases "MSet k v \<in> set ms")
    case True
    then show ?thesis using Cons.IH [OF r] Cons.prems(2) by simp
  next
    case False
    then have e: "m = MSet k v" using Cons.prems(3) by simp
    then have "k \<notin> mkey ` set ms" using Cons.prems(2) by auto
    then have "es' k = es1 k" using apply_mutations_other [OF r] by simp
    moreover have "es1 k = Some (v, vs)" using m e by auto
    ultimately show ?thesis by simp
  qed
qed

lemma atomic_commit_cases:
  obtains
    (failed) "atomic_commit a s =
       (KvCommitError,
        s\<lparr>faults := tl (faults s),
          trace := trace s @ [ECommit (checks a) (mutations a) False]\<rparr>)"
  | (committed) es where
      "\<not> refused s" "list_all (check_holds (entries s)) (checks a)"
      "apply_mutations (clock s) (mutations a) (entries s) = Some es"
      "atomic_commit a s =
         (KvCommitResult (clock s),
          s\<lparr>entries := es, clock := Suc (clock s), faults := tl (faults s),
            trace := trace s @ [ECommit (checks a) (mutations a) True]\<rparr>)"
proof (cases "refused s \<or> \<not> list_all (check_holds (entries s)) (checks a)")
  case True
  then show ?thesis using failed by (simp add: atomic_commit_def)
next
  case False
  show ?thesis
  proof (cases "apply_mutations (clock s) (mutations a) (entries s)")
    case None
    then show ?thesis using False failed by (simp add: atomic_commit_def)
  next
    case (Some es)
    then show ?thesis using False committed [of es] by (simp add: atomic_commit_def)
  qed
qed

lemma atomic_commit_trace:
  "atomic_commit a s = (cr, s') \<Longrightarrow>
     trace s' = trace s @ [ECommit (checks a) (mutations a) (ok cr)]"
  by (cases a s rule: atomic_commit_cases) auto

lemma atomic_commit_faults:
  "atomic_commit a s = (cr, s') \<Longrightarrow> faults s' = tl (faults s)"
  by (cases a s rule: atomic_commit_cases) auto

lemma atomic_commit_failed:
  "atomic_commit a s = (cr, s') \<Longrightarrow> \<not> ok cr \<Longrightarrow> entries s' = entries s \<and> clock s' = clock s"
  by (cases a s rule: atomic_commit_cases) auto

lemma atomic_commit_ok:
  "atomic_commit a s = (cr, s') \<Longrightarrow> ok cr \<Longrightarrow>
     cr = KvCommitResult (clock s) \<and> \<not> refused s
     \<and> list_all (check_holds (entries s)) (checks a)
     \<and> apply_mutations (clock s) (mutations a) (entries s) = Some (entries s')"
  by (cases a s rule: atomic_commit_cases) auto

lemma atomic_commit_other:
  "atomic_commit a s = (cr, s') \<Longrightarrow> k \<notin> mkey ` set (mutations a) \<Longrightarrow> entries s' k = entries s k"
  by (cases a s rule: atomic_commit_cases) (auto dest: apply_mutations_other)

lemma atomic_commit_succeeds:
  "\<not> refused s \<Longrightarrow> list_all (check_holds (entries s)) (checks a)
     \<Longrightarrow> \<forall>m\<in>set (mutations a). \<not> is_sum m \<Longrightarrow> ok (fst (atomic_commit a s))"
  using apply_mutations_total [of "mutations a" "clock s" "entries s"]
  by (auto simp: atomic_commit_def Let_def)

lemma seg_sets_Cons:
  "seg_sets lc d i (x # xs) = MSet (segK lc d i) (VStr x) # seg_sets lc d (Suc i) xs"
proof -
  have "[0..<length (x # xs)] = 0 # map Suc [0..<length xs]"
    by (simp add: upt_conv_Cons map_Suc_upt del: upt_Suc)
  then show ?thesis
    by (simp add: seg_sets_def comp_def del: upt_Suc)
qed

lemma seg_sets_Nil [simp]: "seg_sets lc d i [] = []"
  by (simp add: seg_sets_def)

lemma set_segment_alt:
  "set_segment lc d str (i, keys) a =
     (a\<lparr>mutations := mutations a @ [MSet (segK lc d i) (VStr str)]\<rparr>,
      (Suc i, keys @ [segK lc d i]))"
  by (simp add: set_segment_def segK_def op_set_def op_mutate_def Let_def)

lemma build_batch_set_segment:
  "build_batch (set_segment lc d) strs (i, keys) a =
     (a\<lparr>mutations := mutations a @ seg_sets lc d i strs\<rparr>,
      (i + length strs, keys @ map (segK lc d) [i..<i + length strs]))"
proof (induction strs arbitrary: i keys a)
  case Nil
  then show ?case by simp
next
  case (Cons x xs)
  have "[i..<i + length (x # xs)] = i # [Suc i..<Suc i + length xs]"
    by (simp add: upt_conv_Cons del: upt_Suc)
  then show ?case
    by (simp add: Cons.IH set_segment_alt seg_sets_Cons del: upt_Suc)
qed

lemma mkey_seg_sets: "map mkey (seg_sets lc d i strs) = map (\<lambda>j. segK lc d (i + j)) [0..<length strs]"
  by (simp add: seg_sets_def comp_def)

lemma distinct_seg_sets: "distinct (map mkey (seg_sets lc d i strs))"
  by (simp add: mkey_seg_sets distinct_map inj_on_def)

lemma seg_sets_no_sum: "\<forall>m\<in>set (seg_sets lc d i strs). \<not> is_sum m"
  by (auto simp: seg_sets_def)

lemma seg_sets_mem: "j < length strs \<Longrightarrow> MSet (segK lc d (i + j)) (VStr (strs ! j)) \<in> set (seg_sets lc d i strs)"
  by (auto simp: seg_sets_def)

lemma build_batch_delete_segment:
  "build_batch (delete_segment lc d) segIds c a =
     (a\<lparr>mutations := mutations a @ seg_deletes lc d segIds\<rparr>, c)"
proof (induction segIds arbitrary: a)
  case Nil
  then show ?case by (simp add: seg_deletes_def)
next
  case (Cons x xs)
  then show ?case
    by (simp add: delete_segment_def op_delete_def op_mutate_def seg_deletes_def)
qed

lemma seg_deletes_all: "\<forall>m\<in>set (seg_deletes lc d segIds). is_delete m"
  by (auto simp: seg_deletes_def)

lemma mkey_seg_deletes:
  "mkey ` set (seg_deletes lc d segIds) = (\<lambda>segId. extendKey (segmentKey (l_keys lc)) [d, segId]) ` set segIds"
  by (auto simp: seg_deletes_def image_iff)

lemma kv_get_simps [simp]:
  "fst (kv_get k s) = (case entries s k of None \<Rightarrow> (VNull, None) | Some (v, vs) \<Rightarrow> (v, Some vs))"
  "snd (kv_get k s) = s\<lparr>trace := trace s @ [EGet k]\<rparr>"
  by (simp_all add: kv_get_def)

lemma kvGetMany_eq:
  "kvGetMany ks s =
     (map (\<lambda>k. case entries s k of None \<Rightarrow> (VNull, None) | Some (v, vs) \<Rightarrow> (v, Some vs)) ks,
      s\<lparr>trace := trace s @ map EGet ks\<rparr>)"
proof (induction ks arbitrary: s)
  case Nil
  then show ?case by simp
next
  case (Cons k ks)
  then show ?case by (simp add: kv_get_def)
qed

lemma deleteKeys_entries:
  "entries (deleteKeys ks s) k = (if k \<in> set ks then None else entries s k)"
  by (induction ks arbitrary: s) (auto simp: kv_delete_def)

lemma deleteKeys_trace: "trace (deleteKeys ks s) = trace s @ map EDelete ks"
  by (induction ks arbitrary: s) (auto simp: kv_delete_def)

lemma deleteKeys_faults [simp]: "faults (deleteKeys ks s) = faults s"
  by (induction ks arbitrary: s) (auto simp: kv_delete_def)

lemma deleteKeys_clock [simp]: "clock (deleteKeys ks s) = clock s"
  by (induction ks arbitrary: s) (auto simp: kv_delete_def)

lemma run_batches_set_Cons:
  "run_batches (set_segment lc d) (b # bs) (i, keys) s =
     (let (cr, s1) = atomic_commit (atomic\<lparr>mutations := seg_sets lc d i b\<rparr>) s;
          (crs, c2, s2) =
             run_batches (set_segment lc d) bs
               (i + length b, keys @ map (segK lc d) [i..<i + length b]) s1
      in (cr # crs, c2, s2))"
  by (simp add: build_batch_set_segment atomic_def)

lemma run_batches_set_state:
  "run_batches (set_segment lc d) bs (i, keys) s = (crs, (i', keys'), s') \<Longrightarrow>
     i' = i + length (concat bs) \<and> keys' = keys @ map (segK lc d) [i..<i + length (concat bs)]
     \<and> length crs = length bs"
proof (induction bs arbitrary: i keys s crs)
  case Nil
  then show ?case by simp
next
  case (Cons b bs)
  obtain cr s1 where c: "atomic_commit (atomic\<lparr>mutations := seg_sets lc d i b\<rparr>) s = (cr, s1)"
    by (cases "atomic_commit (atomic\<lparr>mutations := seg_sets lc d i b\<rparr>) s")
  obtain crs1 where r: "run_batches (set_segment lc d) bs
      (i + length b, keys @ map (segK lc d) [i..<i + length b]) s1 = (crs1, (i', keys'), s')"
    and crs: "crs = cr # crs1"
    using Cons.prems c unfolding run_batches_set_Cons by (auto split: prod.splits)
  from Cons.IH [OF r]
  have i': "i' = i + length b + length (concat bs)"
    and k': "keys' = (keys @ map (segK lc d) [i..<i + length b])
        @ map (segK lc d) [i + length b..<i + length b + length (concat bs)]"
    and l: "length crs1 = length bs" by auto
  have "[i..<i + length b] @ [i + length b..<i + length b + length (concat bs)]
      = [i..<i + length (concat (b # bs))]"
    using upt_add_eq_append [of i "i + length b" "length (concat bs)"] by (simp add: add.assoc)
  then have "map (segK lc d) [i..<i + length b]
      @ map (segK lc d) [i + length b..<i + length b + length (concat bs)]
      = map (segK lc d) [i..<i + length (concat (b # bs))]"
    by (metis map_append)
  then show ?case using i' k' l crs by simp
qed

lemma mkey_seg_sets_image:
  "mkey ` set (seg_sets lc d i strs) = segK lc d ` {i..<i + length strs}"
proof -
  have "mkey ` set (seg_sets lc d i strs) = (\<lambda>j. segK lc d (i + j)) ` {0..<length strs}"
    by (simp add: seg_sets_def image_image)
  moreover have "(\<lambda>j. segK lc d (i + j)) ` {0..<length strs} = segK lc d ` {i..<i + length strs}"
  proof safe
    fix j
    assume "j \<in> {0..<length strs}"
    then show "segK lc d (i + j) \<in> segK lc d ` {i..<i + length strs}" by auto
  next
    fix j
    assume "j \<in> {i..<i + length strs}"
    then have "j - i \<in> {0..<length strs}" and "segK lc d j = segK lc d (i + (j - i))" by auto
    then show "segK lc d j \<in> (\<lambda>j. segK lc d (i + j)) ` {0..<length strs}" by (rule_tac x = "j - i" in image_eqI)
  qed
  ultimately show ?thesis by simp
qed

lemma run_batches_set_other:
  "run_batches (set_segment lc d) bs (i, keys) s = (crs, c', s') \<Longrightarrow>
     k \<notin> segK lc d ` {i..<i + length (concat bs)} \<Longrightarrow> entries s' k = entries s k"
proof (induction bs arbitrary: i keys s crs)
  case Nil
  then show ?case by simp
next
  case (Cons b bs)
  obtain cr s1 where c: "atomic_commit (atomic\<lparr>mutations := seg_sets lc d i b\<rparr>) s = (cr, s1)"
    by (cases "atomic_commit (atomic\<lparr>mutations := seg_sets lc d i b\<rparr>) s")
  obtain crs1 where r: "run_batches (set_segment lc d) bs
      (i + length b, keys @ map (segK lc d) [i..<i + length b]) s1 = (crs1, c', s')"
    using Cons.prems(1) c unfolding run_batches_set_Cons by (auto split: prod.splits)
  have sub1: "{i..<i + length b} \<subseteq> {i..<i + length (concat (b # bs))}" by auto
  have sub2: "{i + length b..<i + length b + length (concat bs)}
      \<subseteq> {i..<i + length (concat (b # bs))}" by auto
  have "k \<notin> mkey ` set (mutations (atomic\<lparr>mutations := seg_sets lc d i b\<rparr>))"
    using Cons.prems(2) sub1 by (auto simp: mkey_seg_sets_image)
  then have "entries s1 k = entries s k" using atomic_commit_other [OF c] by simp
  moreover have "k \<notin> segK lc d ` {i + length b..<i + length b + length (concat bs)}"
    using Cons.prems(2) sub2 by blast
  then have "entries s' k = entries s1 k" using Cons.IH [OF r] by simp
  ultimately show ?case by simp
qed

lemma run_batches_set_value:
  "run_batches (set_segment lc d) bs (i, keys) s = (crs, c', s') \<Longrightarrow> list_all ok crs \<Longrightarrow>
     j < length (concat bs) \<Longrightarrow>
     \<exists>vs. entries s' (segK lc d (i + j)) = Some (VStr (concat bs ! j), vs)"
proof (induction bs arbitrary: i keys s crs j)
  case Nil
  then show ?case by simp
next
  case (Cons b bs)
  obtain cr s1 where c: "atomic_commit (atomic\<lparr>mutations := seg_sets lc d i b\<rparr>) s = (cr, s1)"
    by (cases "atomic_commit (atomic\<lparr>mutations := seg_sets lc d i b\<rparr>) s")
  obtain crs1 where r: "run_batches (set_segment lc d) bs
      (i + length b, keys @ map (segK lc d) [i..<i + length b]) s1 = (crs1, c', s')"
    and crs: "crs = cr # crs1"
    using Cons.prems(1) c unfolding run_batches_set_Cons by (auto split: prod.splits)
  have okc: "ok cr" and oks: "list_all ok crs1" using Cons.prems(2) crs by auto
  show ?case
  proof (cases "j < length b")
    case True
    have ap: "apply_mutations (clock s) (seg_sets lc d i b) (entries s) = Some (entries s1)"
      using atomic_commit_ok [OF c okc] by simp
    have "entries s1 (segK lc d (i + j)) = Some (VStr (b ! j), clock s)"
      using apply_mutations_set_value [OF ap distinct_seg_sets seg_sets_mem [OF True]] .
    moreover have "segK lc d (i + j) \<notin> segK lc d ` {i + length b..<i + length b + length (concat bs)}"
      using True by auto
    then have "entries s' (segK lc d (i + j)) = entries s1 (segK lc d (i + j))"
      using run_batches_set_other [OF r] by simp
    moreover have "concat (b # bs) ! j = b ! j" using True by (simp add: nth_append)
    ultimately show ?thesis by simp
  next
    case False
    then have j': "j - length b < length (concat bs)" using Cons.prems(3) by simp
    from Cons.IH [OF r oks j'] obtain vs where
      "entries s' (segK lc d (i + length b + (j - length b))) =
         Some (VStr (concat bs ! (j - length b)), vs)" by blast
    moreover have "i + length b + (j - length b) = i + j" using False by simp
    moreover have "concat (b # bs) ! j = concat bs ! (j - length b)"
      using False by (simp add: nth_append)
    ultimately show ?thesis by simp
  qed
qed

lemma run_batches_set_trace:
  "run_batches (set_segment lc d) bs (i, keys) s = (crs, c', s') \<Longrightarrow>
     (\<exists>evs. trace s' = trace s @ evs \<and> list_all no_checks evs)
     \<and> faults s' = drop (length bs) (faults s)"
proof (induction bs arbitrary: i keys s crs)
  case Nil
  then show ?case by simp
next
  case (Cons b bs)
  obtain cr s1 where c: "atomic_commit (atomic\<lparr>mutations := seg_sets lc d i b\<rparr>) s = (cr, s1)"
    by (cases "atomic_commit (atomic\<lparr>mutations := seg_sets lc d i b\<rparr>) s")
  obtain crs1 where r: "run_batches (set_segment lc d) bs
      (i + length b, keys @ map (segK lc d) [i..<i + length b]) s1 = (crs1, c', s')"
    using Cons.prems(1) c unfolding run_batches_set_Cons by (auto split: prod.splits)
  from Cons.IH [OF r] obtain evs where
    evs: "trace s' = trace s1 @ evs" "list_all no_checks evs"
    and f: "faults s' = drop (length bs) (faults s1)" by blast
  have t1: "trace s1 = trace s @ [ECommit [] (seg_sets lc d i b) (ok cr)]"
    using atomic_commit_trace [OF c] by (simp add: atomic_def)
  have f1: "faults s1 = tl (faults s)" using atomic_commit_faults [OF c] .
  have "trace s' = trace s @ (ECommit [] (seg_sets lc d i b) (ok cr) # evs)"
    using evs(1) t1 by simp
  moreover have "list_all no_checks (ECommit [] (seg_sets lc d i b) (ok cr) # evs)"
    using evs(2) by simp
  moreover have "faults s' = drop (length (b # bs)) (faults s)"
    using f f1 by (simp add: drop_Suc drop_tl)
  ultimately show ?case by blast
qed

lemma segK_segIdK: "segK lc d j = segIdK lc d (VNum (int j))"
  by (simp add: segK_def segIdK_def)

lemma seg_deletes_eq: "seg_deletes lc d segIds = map (\<lambda>segId. MDelete (segIdK lc d segId)) segIds"
  by (simp add: seg_deletes_def segIdK_def)

lemma run_batches_delete_Cons:
  "run_batches (delete_segment lc d) (b # bs) c s =
     (let (cr, s1) = atomic_commit (atomic\<lparr>mutations := seg_deletes lc d b\<rparr>) s;
          (crs, c2, s2) = run_batches (delete_segment lc d) bs c s1
      in (cr # crs, c2, s2))"
  by (simp add: build_batch_delete_segment atomic_def)

lemma atomic_commit_deletes_shrink:
  "atomic_commit a s = (cr, s') \<Longrightarrow> \<forall>m\<in>set (mutations a). is_delete m \<Longrightarrow>
     entries s' k = None \<or> entries s' k = entries s k"
  by (cases a s rule: atomic_commit_cases) (auto dest: apply_mutations_shrink)

lemma run_batches_delete_shrink:
  "run_batches (delete_segment lc d) bs c s = (crs, c', s') \<Longrightarrow>
     entries s' k = None \<or> entries s' k = entries s k"
proof (induction bs arbitrary: s crs)
  case Nil
  then show ?case by simp
next
  case (Cons b bs)
  obtain cr s1 where c: "atomic_commit (atomic\<lparr>mutations := seg_deletes lc d b\<rparr>) s = (cr, s1)"
    by (cases "atomic_commit (atomic\<lparr>mutations := seg_deletes lc d b\<rparr>) s")
  obtain crs1 where r: "run_batches (delete_segment lc d) bs c s1 = (crs1, c', s')"
    using Cons.prems(1) c unfolding run_batches_delete_Cons by (auto split: prod.splits)
  have "entries s1 k = None \<or> entries s1 k = entries s k"
    using atomic_commit_deletes_shrink [OF c] seg_deletes_all [of lc d b] by simp
  moreover have "entries s' k = None \<or> entries s' k = entries s1 k"
    using Cons.IH [OF r] .
  ultimately show ?case by auto
qed

lemma run_batches_delete_other:
  "run_batches (delete_segment lc d) bs c s = (crs, c', s') \<Longrightarrow>
     k \<notin> segIdK lc d ` set (concat bs) \<Longrightarrow> entries s' k = entries s k"
proof (induction bs arbitrary: s crs)
  case Nil
  then show ?case by simp
next
  case (Cons b bs)
  obtain cr s1 where c: "atomic_commit (atomic\<lparr>mutations := seg_deletes lc d b\<rparr>) s = (cr, s1)"
    by (cases "atomic_commit (atomic\<lparr>mutations := seg_deletes lc d b\<rparr>) s")
  obtain crs1 where r: "run_batches (delete_segment lc d) bs c s1 = (crs1, c', s')"
    using Cons.prems(1) c unfolding run_batches_delete_Cons by (auto split: prod.splits)
  have "k \<notin> mkey ` set (mutations (atomic\<lparr>mutations := seg_deletes lc d b\<rparr>))"
    using Cons.prems(2) by (auto simp: seg_deletes_eq)
  then have "entries s1 k = entries s k" using atomic_commit_other [OF c] by simp
  moreover have "k \<notin> segIdK lc d ` set (concat bs)" using Cons.prems(2) by auto
  then have "entries s' k = entries s1 k" using Cons.IH [OF r] by blast
  ultimately show ?case by simp
qed

lemma run_batches_delete_trace:
  "run_batches (delete_segment lc d) bs c s = (crs, c', s') \<Longrightarrow>
     trace s' = trace s @ map2 (\<lambda>b cr. ECommit [] (seg_deletes lc d b) (ok cr)) bs crs
     \<and> length crs = length bs \<and> faults s' = drop (length bs) (faults s) \<and> clock s \<le> clock s'"
proof (induction bs arbitrary: s crs)
  case Nil
  then show ?case by simp
next
  case (Cons b bs)
  obtain cr s1 where c: "atomic_commit (atomic\<lparr>mutations := seg_deletes lc d b\<rparr>) s = (cr, s1)"
    by (cases "atomic_commit (atomic\<lparr>mutations := seg_deletes lc d b\<rparr>) s")
  obtain crs1 where r: "run_batches (delete_segment lc d) bs c s1 = (crs1, c', s')"
    and crs: "crs = cr # crs1"
    using Cons.prems(1) c unfolding run_batches_delete_Cons by (auto split: prod.splits)
  have t1: "trace s1 = trace s @ [ECommit [] (seg_deletes lc d b) (ok cr)]"
    using atomic_commit_trace [OF c] by (simp add: atomic_def)
  have f1: "faults s1 = tl (faults s)" using atomic_commit_faults [OF c] .
  have c1: "clock s \<le> clock s1"
    using c by (cases "atomic\<lparr>mutations := seg_deletes lc d b\<rparr>" s rule: atomic_commit_cases) auto
  show ?case using Cons.IH [OF r] t1 f1 c1 crs by (simp add: drop_Suc drop_tl)
qed

lemma run_batches_delete_all:
  "run_batches (delete_segment lc d) bs c s = (crs, c', s') \<Longrightarrow> True \<notin> set (faults s) \<Longrightarrow>
     segId \<in> set (concat bs) \<Longrightarrow> entries s' (segIdK lc d segId) = None"
proof (induction bs arbitrary: s crs)
  case Nil
  then show ?case by simp
next
  case (Cons b bs)
  obtain cr s1 where c: "atomic_commit (atomic\<lparr>mutations := seg_deletes lc d b\<rparr>) s = (cr, s1)"
    by (cases "atomic_commit (atomic\<lparr>mutations := seg_deletes lc d b\<rparr>) s")
  obtain crs1 where r: "run_batches (delete_segment lc d) bs c s1 = (crs1, c', s')"
    using Cons.prems(1) c unfolding run_batches_delete_Cons by (auto split: prod.splits)
  have nf: "\<not> refused s" using Cons.prems(2) by (auto simp: refused_def split: list.splits)
  have f1: "True \<notin> set (faults s1)"
    using atomic_commit_faults [OF c] Cons.prems(2) by (cases "faults s") auto
  show ?case
  proof (cases "segId \<in> set (concat bs)")
    case True
    then show ?thesis using Cons.IH [OF r f1] by simp
  next
    case False
    then have mem: "segId \<in> set b" using Cons.prems(3) by simp
    have "ok (fst (atomic_commit (atomic\<lparr>mutations := seg_deletes lc d b\<rparr>) s))"
      using nf by (intro atomic_commit_succeeds) (auto simp: atomic_def seg_deletes_def)
    then have okc: "ok cr" using c by simp
    have ap: "apply_mutations (clock s) (seg_deletes lc d b) (entries s) = Some (entries s1)"
      using atomic_commit_ok [OF c okc] by simp
    have "segIdK lc d segId \<in> mkey ` set (seg_deletes lc d b)"
      using mem by (auto simp: seg_deletes_eq image_iff)
    then have "entries s1 (segIdK lc d segId) = None"
      using apply_mutations_deleted [OF ap seg_deletes_all] by simp
    moreover have "entries s' (segIdK lc d segId) = None
        \<or> entries s' (segIdK lc d segId) = entries s1 (segIdK lc d segId)"
      using run_batches_delete_shrink [OF r] .
    ultimately show ?thesis by auto
  qed
qed

section \<open>Lemmas: one attempt of setDocument\<close>

declare LargeCollection_setDocument.simps [simp del]

lemma setDocument_unfold:
  "LargeCollection_setDocument pf lc ident val options overwrite s =
     (case attempt pf lc ident val overwrite s of
        Thrown e s' \<Rightarrow> Some (Inl e, s')
      | Diverged \<Rightarrow> None
      | Finished r s' \<Rightarrow> Some (Inr r, s')
      | Failed docId parsed s' \<Rightarrow>
          if retry_of options > 0
          then LargeCollection_setDocument pf lc (Some docId) parsed
                 (with_retry options (retry_of options - 1)) overwrite s'
          else Some (Inr CommitError, s'))"
proof (cases "l_model_parse lc val")
  case None
  then show ?thesis
    by (subst LargeCollection_setDocument.simps) (simp add: attempt_def)
next
  case (Some parsed)
  define docId where "docId = (case ident of None \<Rightarrow> l_idGenerator lc parsed | Some i \<Rightarrow> i)"
  obtain check s1 where c:
    "atomic_commit (op_check [Check (extendKey (idKey (l_keys lc)) [docId]) None] atomic) s
       = (check, s1)"
    by (cases "atomic_commit (op_check [Check (extendKey (idKey (l_keys lc)) [docId]) None] atomic) s")
  show ?thesis
  proof (cases "\<not> ok check \<and> \<not> overwrite")
    case True
    then show ?thesis using Some c
      by (subst LargeCollection_setDocument.simps)
        (simp add: attempt_def docId_def [symmetric])
  next
    case False
    obtain deleted s2 where d:
      "(if \<not> ok check then LargeCollection_delete pf lc docId s1 else (Inr (), s1)) = (deleted, s2)"
      by (cases "if \<not> ok check then LargeCollection_delete pf lc docId s1 else (Inr (), s1)")
    show ?thesis
    proof (cases deleted)
      case (Inl e)
      then show ?thesis using Some c False d
        by (subst LargeCollection_setDocument.simps)
          (simp add: attempt_def docId_def [symmetric])
    next
      case (Inr u)
      show ?thesis
      proof (cases "jsonPartsLoop (LARGE_COLLECTION_STRING_LIMIT pf) (JSON_stringify pf parsed) 0 []")
        case None
        then show ?thesis using Some c False d Inr
          by (subst LargeCollection_setDocument.simps)
            (simp add: attempt_def write_attempt_def docId_def [symmetric])
      next
        case (Some jsonParts)
        obtain crs index keys s3 where u:
          "useAtomics (ATOMIC_OPERATION_MUTATION_LIMIT pf) jsonParts (set_segment lc docId)
             (0, []) s2 = (crs, (index, keys), s3)"
          by (cases "useAtomics (ATOMIC_OPERATION_MUTATION_LIMIT pf) jsonParts
             (set_segment lc docId) (0, []) s2") auto
        obtain cr s4 where m:
          "atomic_commit (op_set (extendKey (idKey (l_keys lc)) [docId]) (entry_of_keys keys)
             atomic) s3 = (cr, s4)"
          by (cases "atomic_commit (op_set (extendKey (idKey (l_keys lc)) [docId])
             (entry_of_keys keys) atomic) s3")
        show ?thesis using \<open>l_model_parse lc val = Some parsed\<close> c False d Inr Some u m
          by (subst LargeCollection_setDocument.simps)
            (auto simp add: attempt_def write_attempt_def docId_def [symmetric] split: commit.splits)
      qed
    qed
  qed
qed

lemma retry_of_with_retry [simp]: "retry_of (with_retry options r) = r"
  by (simp add: retry_of_def with_retry_def split: option.splits)

lemma newLargeCollection_keys [simp]: "same_length_keys (newLargeCollection key mp gen)"
  by (simp add: same_length_keys_def newLargeCollection_def extendKey_def)

lemma docK_neq_segIdK: "same_length_keys lc \<Longrightarrow> docK lc d \<noteq> segIdK lc d' segId"
proof
  assume a: "same_length_keys lc" and e: "docK lc d = segIdK lc d' segId"
  from e have "length (docK lc d) = length (segIdK lc d' segId)" by simp
  then show False using a by (simp add: docK_def segIdK_def extendKey_def same_length_keys_def)
qed

lemma docK_neq_segK: "same_length_keys lc \<Longrightarrow> docK lc d \<noteq> segK lc d' j"
  by (simp add: segK_segIdK docK_neq_segIdK)

lemma getDocumentId_segK [simp]: "getDocumentId (segK lc d j) = Some (VNum (int j))"
  by (simp add: getDocumentId_def segK_def extendKey_def)

lemma entry_of_segK:
  "entry_of_keys (map (segK lc d) xs) = largeDocumentEntry (map (\<lambda>j. VNum (int j)) xs)"
proof -
  have "List.map_filter getDocumentId (map (segK lc d) xs) = map (\<lambda>j. VNum (int j)) xs"
    by (induction xs) simp_all
  then show ?thesis by (simp add: entry_of_keys_def)
qed

lemma list_all_no_checks_deletes [simp]: "list_all no_checks (map EDelete ks)"
  by (induction ks) simp_all

lemma write_attempt_cases:
  assumes lim: "0 < LARGE_COLLECTION_STRING_LIMIT pf" and wf: "same_length_keys lc"
  obtains
    (failed) s' where
      "write_attempt pf lc d p s2 = Failed d p s'"
      "\<And>k. entries s' k = None \<or> entries s' k = entries s2 k"
      "\<exists>evs. trace s' = trace s2 @ evs \<and> list_all no_checks evs"
  | (finished) vs s' where
      "write_attempt pf lc d p s2 = Finished (CommitResult d vs) s'"
      "stored_document pf lc d (JSON_stringify pf p) vs s'"
      "\<And>k. k \<noteq> docK lc d \<Longrightarrow>
         k \<notin> segK lc d ` {0..<length (slices (LARGE_COLLECTION_STRING_LIMIT pf) (JSON_stringify pf p))}
         \<Longrightarrow> entries s' k = entries s2 k"
      "\<exists>evs. trace s' = trace s2 @ evs \<and> list_all no_checks evs"
proof -
  define json where "json = JSON_stringify pf p"
  define parts where "parts = slices (LARGE_COLLECTION_STRING_LIMIT pf) json"
  define batches where "batches = slices (ATOMIC_OPERATION_MUTATION_LIMIT pf) parts"
  have loop: "jsonPartsLoop (LARGE_COLLECTION_STRING_LIMIT pf) json 0 [] = Some parts"
    using jsonPartsLoop_slices [OF lim, of json 0 "[]"] by (simp add: parts_def)
  obtain crs i' keys s3 where
    rb: "run_batches (set_segment lc d) batches (0, []) s2 = (crs, (i', keys), s3)"
    by (cases "run_batches (set_segment lc d) batches (0, []) s2") auto
  from run_batches_set_state [OF rb]
  have keys: "keys = map (segK lc d) [0..<length (concat batches)]"
    and lcrs: "length crs = length batches" by auto
  have setkeys: "set keys = segK lc d ` {0..<length (concat batches)}"
    by (simp add: keys)
  have other3: "\<And>k. k \<notin> set keys \<Longrightarrow> entries s3 k = entries s2 k"
    using run_batches_set_other [OF rb] setkeys by simp
  obtain evs3 where tr3: "trace s3 = trace s2 @ evs3" and nc3: "list_all no_checks evs3"
    using run_batches_set_trace [OF rb] by blast
  have ua: "useAtomics (ATOMIC_OPERATION_MUTATION_LIMIT pf) parts (set_segment lc d) (0, []) s2
      = (crs, (i', keys), s3)"
    using rb by (simp add: useAtomics_def batches_def)
  show thesis
  proof (cases "length crs > 0 \<and> list_all ok crs")
    case False
    have wa: "write_attempt pf lc d p s2 = Failed d p (deleteKeys keys s3)"
      using loop ua False by (auto simp: write_attempt_def json_def)
    have fr: "\<And>k. entries (deleteKeys keys s3) k = None
        \<or> entries (deleteKeys keys s3) k = entries s2 k"
      using other3 by (simp add: deleteKeys_entries)
    have "trace (deleteKeys keys s3) = trace s2 @ (evs3 @ map EDelete keys)"
      using tr3 by (simp add: deleteKeys_trace)
    moreover have "list_all no_checks (evs3 @ map EDelete keys)" using nc3 by simp
    ultimately have "\<exists>evs. trace (deleteKeys keys s3) = trace s2 @ evs \<and> list_all no_checks evs"
      by blast
    then show ?thesis using failed [OF wa fr] by blast
  next
    case True
    then have okall: "list_all ok crs" and bne: "batches \<noteq> []" using lcrs by auto
    have mut: "0 < ATOMIC_OPERATION_MUTATION_LIMIT pf"
      using bne by (cases "ATOMIC_OPERATION_MUTATION_LIMIT pf = 0") (auto simp: batches_def)
    have pne: "parts \<noteq> []"
      using bne by (cases "parts = []") (auto simp: batches_def)
    have cb: "concat batches = parts" using concat_slices [OF mut] by (simp add: batches_def)
    obtain cr s4 where mc:
      "atomic_commit (op_set (extendKey (idKey (l_keys lc)) [d]) (entry_of_keys keys) atomic) s3
         = (cr, s4)"
      by (cases "atomic_commit (op_set (extendKey (idKey (l_keys lc)) [d])
         (entry_of_keys keys) atomic) s3")
    have muts: "mutations (op_set (extendKey (idKey (l_keys lc)) [d]) (entry_of_keys keys) atomic)
        = [MSet (docK lc d) (entry_of_keys keys)]"
      and chks: "checks (op_set (extendKey (idKey (l_keys lc)) [d]) (entry_of_keys keys) atomic) = []"
      by (simp_all add: op_set_def op_mutate_def atomic_def docK_def)
    have tr4: "trace s4 = trace s3 @ [ECommit [] [MSet (docK lc d) (entry_of_keys keys)] (ok cr)]"
      using atomic_commit_trace [OF mc] muts chks by simp
    show ?thesis
    proof (cases cr)
      case KvCommitError
      have wa: "write_attempt pf lc d p s2 = Failed d p (deleteKeys keys s4)"
        using loop ua True mc KvCommitError by (auto simp: write_attempt_def json_def)
      have "entries s4 = entries s3" using atomic_commit_failed [OF mc] KvCommitError by simp
      then have fr: "\<And>k. entries (deleteKeys keys s4) k = None
          \<or> entries (deleteKeys keys s4) k = entries s2 k"
        using other3 by (simp add: deleteKeys_entries)
      have "trace (deleteKeys keys s4) = trace s2 @ (evs3
          @ ECommit [] [MSet (docK lc d) (entry_of_keys keys)] (ok cr) # map EDelete keys)"
        using tr3 tr4 by (simp add: deleteKeys_trace)
      moreover have "list_all no_checks (evs3
          @ ECommit [] [MSet (docK lc d) (entry_of_keys keys)] (ok cr) # map EDelete keys)"
        using nc3 by simp
      ultimately have "\<exists>evs. trace (deleteKeys keys s4) = trace s2 @ evs \<and> list_all no_checks evs"
        by blast
      then show ?thesis using failed [OF wa fr] by blast
    next
      case (KvCommitResult vs)
      have wa: "write_attempt pf lc d p s2 = Finished (CommitResult d vs) s4"
        using loop ua True mc KvCommitResult by (auto simp: write_attempt_def json_def)
      have "apply_mutations (clock s3) [MSet (docK lc d) (entry_of_keys keys)] (entries s3)
          = Some (entries s4)"
        using atomic_commit_ok [OF mc] KvCommitResult muts by simp
      then have e4: "entries s4 = (entries s3)(docK lc d \<mapsto> (entry_of_keys keys, clock s3))"
        by simp
      have vs: "vs = clock s3" using atomic_commit_ok [OF mc] KvCommitResult by simp
      have ek: "entry_of_keys keys = largeDocumentEntry (map (\<lambda>j. VNum (int j)) [0..<length parts])"
        by (simp add: keys cb entry_of_segK)
      have segs: "\<forall>j<length parts. \<exists>vsj. entries s4 (segK lc d j) = Some (VStr (parts ! j), vsj)"
      proof (intro allI impI)
        fix j
        assume j: "j < length parts"
        then have "j < length (concat batches)" by (simp add: cb)
        from run_batches_set_value [OF rb okall this]
        obtain vsj where "entries s3 (segK lc d j) = Some (VStr (parts ! j), vsj)"
          by (auto simp: cb)
        moreover have "entries s4 (segK lc d j) = entries s3 (segK lc d j)"
          using docK_neq_segK [OF wf, of d d j] by (simp add: e4)
        ultimately show "\<exists>vsj. entries s4 (segK lc d j) = Some (VStr (parts ! j), vsj)" by simp
      qed
      have sd: "stored_document pf lc d (JSON_stringify pf p) vs s4"
        using pne segs ek by (simp add: stored_document_def Let_def parts_def json_def e4 vs)
      have fr: "\<And>k. k \<noteq> docK lc d \<Longrightarrow>
         k \<notin> segK lc d ` {0..<length (slices (LARGE_COLLECTION_STRING_LIMIT pf) (JSON_stringify pf p))}
         \<Longrightarrow> entries s4 k = entries s2 k"
        using other3 setkeys by (simp add: e4 cb parts_def json_def)
      have "trace s4 = trace s2 @ (evs3
          @ [ECommit [] [MSet (docK lc d) (entry_of_keys keys)] (ok cr)])"
        using tr3 tr4 by simp
      moreover have "list_all no_checks (evs3
          @ [ECommit [] [MSet (docK lc d) (entry_of_keys keys)] (ok cr)])"
        using nc3 by simp
      ultimately have "\<exists>evs. trace s4 = trace s2 @ evs \<and> list_all no_checks evs" by blast
      then show ?thesis using finished [OF wa sd fr] by blast
    qed
  qed
qed

section \<open>LargeCollection.delete\<close>

lemma delete_absent:
  "entries s (docK lc d) = None \<Longrightarrow>
     LargeCollection_delete pf lc d s = (Inr (), s\<lparr>trace := trace s @ [EGet (docK lc d)]\<rparr>)"
  by (simp add: LargeCollection_delete_def kv_get_def docK_def)

lemma entry_ids_largeDocumentEntry [simp]: "entry_ids (largeDocumentEntry ids) = Some ids"
  by (simp add: largeDocumentEntry_def)

lemma truthy_largeDocumentEntry [simp]: "truthy (largeDocumentEntry ids)"
  by (simp add: largeDocumentEntry_def)

lemma delete_manifest:
  "entries s (docK lc d) = Some (largeDocumentEntry ids, vs) \<Longrightarrow>
     LargeCollection_delete pf lc d s =
       (Inr (), delete_progress pf lc d ids s
          (length (slices (ATOMIC_OPERATION_MUTATION_LIMIT pf) ids)))"
  by (simp add: LargeCollection_delete_def kv_get_def docK_def useAtomics_def
      delete_progress_def Let_def split: prod.splits)

lemma delete_progress_entries:
  assumes "same_length_keys lc"
  shows "entries (delete_progress pf lc d ids s n) (docK lc d) = None
     \<and> (\<forall>k. entries (delete_progress pf lc d ids s n) k = None
            \<or> entries (delete_progress pf lc d ids s n) k = entries s k)"
proof -
  define s2 where "s2 = kv_delete (docK lc d) (snd (kv_get (docK lc d) s))"
  define bs where "bs = take n (slices (ATOMIC_OPERATION_MUTATION_LIMIT pf) ids)"
  obtain crs c' s' where rb: "run_batches (delete_segment lc d) bs () s2 = (crs, c', s')"
    by (cases "run_batches (delete_segment lc d) bs () s2") auto
  have p: "delete_progress pf lc d ids s n = s'"
    using rb by (simp add: delete_progress_def s2_def bs_def)
  have e2: "\<And>k. entries s2 k = (if k = docK lc d then None else entries s k)"
    by (simp add: s2_def kv_delete_def)
  have "docK lc d \<notin> segIdK lc d ` set (concat bs)"
    using docK_neq_segIdK [OF assms] by auto
  then have "entries s' (docK lc d) = None"
    using run_batches_delete_other [OF rb] e2 by simp
  moreover have "\<And>k. entries s' k = None \<or> entries s' k = entries s k"
    using run_batches_delete_shrink [OF rb] e2 by metis
  ultimately show ?thesis using p by simp
qed

lemma delete_progress_trace:
  "\<exists>crs. length crs = length (slices (ATOMIC_OPERATION_MUTATION_LIMIT pf) ids)
     \<and> trace (delete_progress pf lc d ids s
          (length (slices (ATOMIC_OPERATION_MUTATION_LIMIT pf) ids))) =
        trace s @ [EGet (docK lc d), EDelete (docK lc d)]
          @ map2 (\<lambda>b cr. ECommit [] (seg_deletes lc d b) (ok cr))
              (slices (ATOMIC_OPERATION_MUTATION_LIMIT pf) ids) crs"
proof -
  define s2 where "s2 = kv_delete (docK lc d) (snd (kv_get (docK lc d) s))"
  define bs where "bs = slices (ATOMIC_OPERATION_MUTATION_LIMIT pf) ids"
  obtain crs c' s' where rb: "run_batches (delete_segment lc d) bs () s2 = (crs, c', s')"
    by (cases "run_batches (delete_segment lc d) bs () s2") auto
  have p: "delete_progress pf lc d ids s (length bs) = s'"
    using rb by (simp add: delete_progress_def s2_def bs_def)
  have "trace s2 = trace s @ [EGet (docK lc d), EDelete (docK lc d)]"
    by (simp add: s2_def kv_delete_def)
  then show ?thesis using run_batches_delete_trace [OF rb] p by (auto simp: bs_def)
qed

lemma delete_progress_segments:
  assumes "0 < ATOMIC_OPERATION_MUTATION_LIMIT pf" and "True \<notin> set (faults s)"
    and "segId \<in> set ids"
  shows "entries (delete_progress pf lc d ids s
           (length (slices (ATOMIC_OPERATION_MUTATION_LIMIT pf) ids))) (segIdK lc d segId) = None"
proof -
  define s2 where "s2 = kv_delete (docK lc d) (snd (kv_get (docK lc d) s))"
  define bs where "bs = slices (ATOMIC_OPERATION_MUTATION_LIMIT pf) ids"
  obtain crs c' s' where rb: "run_batches (delete_segment lc d) bs () s2 = (crs, c', s')"
    by (cases "run_batches (delete_segment lc d) bs () s2") auto
  have p: "delete_progress pf lc d ids s (length bs) = s'"
    using rb by (simp add: delete_progress_def s2_def bs_def)
  have "True \<notin> set (faults s2)" using assms(2) by (simp add: s2_def kv_delete_def)
  moreover have "segId \<in> set (concat bs)" using assms(1,3) by (simp add: bs_def concat_slices)
  ultimately show ?thesis using run_batches_delete_all [OF rb] p by (simp add: bs_def)
qed

text \<open>
  C8. \<^verbatim>\<open>delete(id)\<close>: when no manifest is stored at the id key the store is left as it is
  (only the read is made). When a manifest is stored, the requests made are the read, the
  delete of the manifest key, and then the batches of segment deletes, which between them
  name every segment key the manifest lists; in every state from the delete of the manifest
  key on (after any number of the batches) the id key holds no manifest and no entry has
  been added or changed; and when the store refuses no commit, every listed segment key is
  gone at the end.
\<close>

theorem delete_manifest_before_segments:
  assumes "same_length_keys lc"
  shows "(entries s (docK lc d) = None \<longrightarrow>
           LargeCollection_delete pf lc d s =
             (Inr (), s\<lparr>trace := trace s @ [EGet (docK lc d)]\<rparr>))
     \<and> (entries s (docK lc d) = Some (largeDocumentEntry ids, vs) \<longrightarrow>
          LargeCollection_delete pf lc d s =
            (Inr (), delete_progress pf lc d ids s
               (length (slices (ATOMIC_OPERATION_MUTATION_LIMIT pf) ids)))
          \<and> (\<exists>crs. length crs = length (slices (ATOMIC_OPERATION_MUTATION_LIMIT pf) ids)
                \<and> trace (delete_progress pf lc d ids s
                     (length (slices (ATOMIC_OPERATION_MUTATION_LIMIT pf) ids))) =
                   trace s @ [EGet (docK lc d), EDelete (docK lc d)]
                     @ map2 (\<lambda>b cr. ECommit [] (seg_deletes lc d b) (ok cr))
                         (slices (ATOMIC_OPERATION_MUTATION_LIMIT pf) ids) crs)
          \<and> (0 < ATOMIC_OPERATION_MUTATION_LIMIT pf \<longrightarrow>
                concat (map (seg_deletes lc d) (slices (ATOMIC_OPERATION_MUTATION_LIMIT pf) ids))
                  = seg_deletes lc d ids)
          \<and> (\<forall>n. entries (delete_progress pf lc d ids s n) (docK lc d) = None
                \<and> (\<forall>k. entries (delete_progress pf lc d ids s n) k = None
                       \<or> entries (delete_progress pf lc d ids s n) k = entries s k))
          \<and> (0 < ATOMIC_OPERATION_MUTATION_LIMIT pf \<and> True \<notin> set (faults s) \<longrightarrow>
               (\<forall>segId\<in>set ids.
                  entries (delete_progress pf lc d ids s
                    (length (slices (ATOMIC_OPERATION_MUTATION_LIMIT pf) ids)))
                    (segIdK lc d segId) = None)))"
proof (intro conjI impI)
  assume "entries s (docK lc d) = None"
  then show "LargeCollection_delete pf lc d s =
      (Inr (), s\<lparr>trace := trace s @ [EGet (docK lc d)]\<rparr>)"
    by (rule delete_absent)
next
  assume "entries s (docK lc d) = Some (largeDocumentEntry ids, vs)"
  then show "LargeCollection_delete pf lc d s =
      (Inr (), delete_progress pf lc d ids s
         (length (slices (ATOMIC_OPERATION_MUTATION_LIMIT pf) ids)))"
    by (rule delete_manifest)
next
  show "\<exists>crs. length crs = length (slices (ATOMIC_OPERATION_MUTATION_LIMIT pf) ids)
      \<and> trace (delete_progress pf lc d ids s
           (length (slices (ATOMIC_OPERATION_MUTATION_LIMIT pf) ids))) =
         trace s @ [EGet (docK lc d), EDelete (docK lc d)]
           @ map2 (\<lambda>b cr. ECommit [] (seg_deletes lc d b) (ok cr))
               (slices (ATOMIC_OPERATION_MUTATION_LIMIT pf) ids) crs"
    by (rule delete_progress_trace)
next
  assume "0 < ATOMIC_OPERATION_MUTATION_LIMIT pf"
  then have "concat (slices (ATOMIC_OPERATION_MUTATION_LIMIT pf) ids) = ids"
    by (rule concat_slices)
  then show "concat (map (seg_deletes lc d) (slices (ATOMIC_OPERATION_MUTATION_LIMIT pf) ids))
      = seg_deletes lc d ids"
    by (metis (no_types, lifting) map_concat seg_deletes_def map_eq_conv)
next
  show "\<forall>n. entries (delete_progress pf lc d ids s n) (docK lc d) = None
      \<and> (\<forall>k. entries (delete_progress pf lc d ids s n) k = None
             \<or> entries (delete_progress pf lc d ids s n) k = entries s k)"
    using delete_progress_entries [OF assms] by blast
next
  assume "0 < ATOMIC_OPERATION_MUTATION_LIMIT pf \<and> True \<notin> set (faults s)"
  then show "\<forall>segId\<in>set ids.
      entries (delete_progress pf lc d ids s
        (length (slices (ATOMIC_OPERATION_MUTATION_LIMIT pf) ids))) (segIdK lc d segId) = None"
    using delete_progress_segments by blast
qed

theorem delete_manifest_before_segments_witness:
  "same_length_keys lc0
   \<and> entries empty_store (docK lc0 (VStr ''a'')) = None
   \<and> LargeCollection_delete pf0 lc0 (VStr ''a'') empty_store =
       (Inr (), empty_store\<lparr>trace := trace empty_store @ [EGet (docK lc0 (VStr ''a''))]\<rparr>)
   \<and> entries store0 (docK lc0 (VStr ''a'')) =
       Some (largeDocumentEntry [VNum 0, VNum 1, VNum 2], 7)
   \<and> 0 < ATOMIC_OPERATION_MUTATION_LIMIT pf0
   \<and> True \<notin> set (faults store0)
   \<and> LargeCollection_delete pf0 lc0 (VStr ''a'') store0 =
       (Inr (), delete_progress pf0 lc0 (VStr ''a'') [VNum 0, VNum 1, VNum 2] store0
          (length (slices (ATOMIC_OPERATION_MUTATION_LIMIT pf0) [VNum 0, VNum 1, VNum 2])))
   \<and> entries (delete_progress pf0 lc0 (VStr ''a'') [VNum 0, VNum 1, VNum 2] store0 1)
        (docK lc0 (VStr ''a'')) = None
   \<and> entries (delete_progress pf0 lc0 (VStr ''a'') [VNum 0, VNum 1, VNum 2] store0
          (length (slices (ATOMIC_OPERATION_MUTATION_LIMIT pf0) [VNum 0, VNum 1, VNum 2])))
        (segIdK lc0 (VStr ''a'') (VNum 2)) = None"
proof -
  have a: "same_length_keys lc0" by (simp add: lc0_def)
  have b: "entries empty_store (docK lc0 (VStr ''a'')) = None" by (simp add: empty_store_def)
  have c: "entries store0 (docK lc0 (VStr ''a'')) =
      Some (largeDocumentEntry [VNum 0, VNum 1, VNum 2], 7)"
    by (simp add: store0_def docK_neq_segK [OF a])
  have d: "0 < ATOMIC_OPERATION_MUTATION_LIMIT pf0" by (simp add: pf0_def)
  have e: "True \<notin> set (faults store0)" by (simp add: store0_def)
  note t1 = delete_manifest_before_segments [OF a, where s = empty_store and d = "VStr ''a''"
      and pf = pf0]
  note t2 = delete_manifest_before_segments [OF a, where s = store0 and d = "VStr ''a''"
      and pf = pf0 and ids = "[VNum 0, VNum 1, VNum 2]" and vs = 7]
  have f: "VNum 2 \<in> set [VNum 0, VNum 1, VNum 2]" by simp
  show ?thesis using a b c d e f t1 t2 by blast
qed

section \<open>Attempts and retries of setDocument\<close>

lemma no_checks_not_probe: "list_all no_checks evs \<Longrightarrow> filter (is_probe k) evs = []"
proof (induction evs)
  case Nil
  then show ?case by simp
next
  case (Cons e evs)
  then show ?case by (cases e) auto
qed

lemma list_all_no_checks_commits [simp]:
  "list_all no_checks (map2 (\<lambda>b cr. ECommit [] (f b) (g cr)) bs crs)"
  by (auto simp: list_all_iff)

lemma delete_unfold:
  "LargeCollection_delete pf lc d s =
     (let val = (case entries s (docK lc d) of None \<Rightarrow> VNull | Some (v, vs) \<Rightarrow> v);
          s1 = s\<lparr>trace := trace s @ [EGet (docK lc d)]\<rparr>
      in if \<not> truthy val then (Inr (), s1)
         else (case entry_ids val of
                 None \<Rightarrow> (Inl TypeError, kv_delete (docK lc d) s1)
               | Some ids \<Rightarrow>
                   (Inr (), snd (snd (run_batches (delete_segment lc d)
                      (slices (ATOMIC_OPERATION_MUTATION_LIMIT pf) ids) ()
                      (kv_delete (docK lc d) s1))))))"
proof (cases "entries s (docK lc d)")
  case None
  then show ?thesis
    by (simp add: LargeCollection_delete_def kv_get_def docK_def Let_def)
next
  case (Some e)
  obtain v vs where e: "e = (v, vs)" by (cases e)
  show ?thesis
    using Some e
    by (simp add: LargeCollection_delete_def kv_get_def docK_def useAtomics_def Let_def
        split: prod.splits option.splits)
qed

lemma delete_general:
  assumes "LargeCollection_delete pf lc d s = (r, s')"
  shows "(\<forall>k. entries s' k = None \<or> entries s' k = entries s k)
     \<and> (\<exists>evs. trace s' = trace s @ evs \<and> list_all no_checks evs)"
proof -
  define s1 where "s1 = s\<lparr>trace := trace s @ [EGet (docK lc d)]\<rparr>"
  define val where "val = (case entries s (docK lc d) of None \<Rightarrow> VNull | Some (v, vs) \<Rightarrow> v)"
  have e1: "entries s1 = entries s" and t1: "trace s1 = trace s @ [EGet (docK lc d)]"
    by (simp_all add: s1_def)
  note unf = assms [unfolded delete_unfold Let_def, folded val_def s1_def]
  show ?thesis
  proof (cases "truthy val")
    case False
    then have "s' = s1" using unf by simp
    then show ?thesis using e1 t1 by simp
  next
    case True
    define s2 where "s2 = kv_delete (docK lc d) s1"
    have e2: "\<And>k. entries s2 k = None \<or> entries s2 k = entries s k"
      by (simp add: s2_def kv_delete_def e1)
    have t2: "trace s2 = trace s @ [EGet (docK lc d), EDelete (docK lc d)]"
      by (simp add: s2_def kv_delete_def t1)
    show ?thesis
    proof (cases "entry_ids val")
      case None
      then have "s' = s2" using unf True by (simp add: s2_def)
      then show ?thesis using e2 t2 by simp
    next
      case (Some ids)
      obtain crs c' s3 where rb:
        "run_batches (delete_segment lc d) (slices (ATOMIC_OPERATION_MUTATION_LIMIT pf) ids) () s2
           = (crs, c', s3)"
        by (cases "run_batches (delete_segment lc d)
           (slices (ATOMIC_OPERATION_MUTATION_LIMIT pf) ids) () s2") auto
      have fr3: "\<And>k. entries s3 k = None \<or> entries s3 k = entries s k"
        using run_batches_delete_shrink [OF rb] e2 by metis
      have eq: "s' = s3" using unf True Some rb by (simp add: s2_def)
      have "trace s3 = trace s @ ([EGet (docK lc d), EDelete (docK lc d)]
          @ map2 (\<lambda>b cr. ECommit [] (seg_deletes lc d b) (ok cr))
              (slices (ATOMIC_OPERATION_MUTATION_LIMIT pf) ids) crs)
        \<and> list_all no_checks ([EGet (docK lc d), EDelete (docK lc d)]
          @ map2 (\<lambda>b cr. ECommit [] (seg_deletes lc d b) (ok cr))
              (slices (ATOMIC_OPERATION_MUTATION_LIMIT pf) ids) crs)"
        using run_batches_delete_trace [OF rb] t2 by simp
      then have "\<exists>evs. trace s3 = trace s @ evs \<and> list_all no_checks evs" by (rule exI)
      then show ?thesis using fr3 eq by simp
    qed
  qed
qed

lemma probe_commit:
  assumes "atomic_commit (op_check [Check k None] atomic) s = (check, s1)"
  shows "entries s1 = entries s" and "trace s1 = trace s @ [ECommit [Check k None] [] (ok check)]"
    and "ok check \<Longrightarrow> entries s k = None"
proof -
  have c: "checks (op_check [Check k None] atomic) = [Check k None]"
    and m: "mutations (op_check [Check k None] atomic) = []"
    by (simp_all add: op_check_def atomic_def)
  show "entries s1 = entries s"
    using assms m by (cases "op_check [Check k None] atomic" s rule: atomic_commit_cases) auto
  show "trace s1 = trace s @ [ECommit [Check k None] [] (ok check)]"
    using atomic_commit_trace [OF assms] c m by simp
  show "ok check \<Longrightarrow> entries s k = None"
    using atomic_commit_ok [OF assms] c by (auto split: option.splits)
qed

lemma attempt_cases:
  assumes lim: "0 < LARGE_COLLECTION_STRING_LIMIT pf" and wf: "same_length_keys lc"
  obtains
    (unparsed) "l_model_parse lc val = None"
      "attempt pf lc ident val overwrite s = Thrown ModelParseError s"
  | (thrown) p e s' where "l_model_parse lc val = Some p"
      "attempt pf lc ident val overwrite s = Thrown e s'"
      "\<And>k. entries s' k = None \<or> entries s' k = entries s k"
      "\<exists>b evs. trace s' = trace s @ ECommit [Check (docK lc (docId_of lc ident p)) None] [] b # evs
         \<and> list_all no_checks evs"
  | (rejected) p s' where "l_model_parse lc val = Some p" "\<not> overwrite"
      "attempt pf lc ident val overwrite s = Finished CommitError s'"
      "entries s' = entries s"
      "trace s' = trace s @ [ECommit [Check (docK lc (docId_of lc ident p)) None] [] False]"
  | (failed) p s' where "l_model_parse lc val = Some p"
      "attempt pf lc ident val overwrite s = Failed (docId_of lc ident p) p s'"
      "\<And>k. entries s' k = None \<or> entries s' k = entries s k"
      "\<exists>b evs. trace s' = trace s @ ECommit [Check (docK lc (docId_of lc ident p)) None] [] b # evs
         \<and> list_all no_checks evs"
  | (finished) p vs s' where "l_model_parse lc val = Some p"
      "attempt pf lc ident val overwrite s = Finished (CommitResult (docId_of lc ident p) vs) s'"
      "stored_document pf lc (docId_of lc ident p) (JSON_stringify pf p) vs s'"
      "\<And>k. k \<noteq> docK lc (docId_of lc ident p) \<Longrightarrow>
         k \<notin> segK lc (docId_of lc ident p) `
           {0..<length (slices (LARGE_COLLECTION_STRING_LIMIT pf) (JSON_stringify pf p))}
         \<Longrightarrow> entries s' k = None \<or> entries s' k = entries s k"
      "\<exists>b evs. trace s' = trace s @ ECommit [Check (docK lc (docId_of lc ident p)) None] [] b # evs
         \<and> list_all no_checks evs"
proof (cases "l_model_parse lc val")
  case None
  then show ?thesis using unparsed by (simp add: attempt_def)
next
  case (Some p)
  define d where "d = docId_of lc ident p"
  obtain check s1 where c: "atomic_commit (op_check [Check (docK lc d) None] atomic) s = (check, s1)"
    by (cases "atomic_commit (op_check [Check (docK lc d) None] atomic) s")
  note pc = probe_commit [OF c]
  have unf: "attempt pf lc ident val overwrite s =
      (if \<not> ok check \<and> \<not> overwrite then Finished CommitError s1
       else (let (deleted, s2) =
                   (if \<not> ok check then LargeCollection_delete pf lc d s1 else (Inr (), s1))
             in case deleted of Inl e \<Rightarrow> Thrown e s2
                | Inr u \<Rightarrow> write_attempt pf lc d p s2))"
    using Some c unfolding attempt_def d_def docId_of_def docK_def Let_def by simp
  show ?thesis
  proof (cases "\<not> ok check \<and> \<not> overwrite")
    case True
    then have "attempt pf lc ident val overwrite s = Finished CommitError s1"
      using unf by simp
    then show ?thesis using rejected [OF Some _ _ pc(1)] pc(2) True by (simp add: d_def)
  next
    case False
    obtain deleted s2 where dl:
      "(if \<not> ok check then LargeCollection_delete pf lc d s1 else (Inr (), s1)) = (deleted, s2)"
      by (cases "if \<not> ok check then LargeCollection_delete pf lc d s1 else (Inr (), s1)")
    have fr2: "\<And>k. entries s2 k = None \<or> entries s2 k = entries s k"
      and "\<exists>evs. trace s2 = trace s1 @ evs \<and> list_all no_checks evs"
    proof -
      show "\<And>k. entries s2 k = None \<or> entries s2 k = entries s k"
      proof (cases "ok check")
        case True
        then show "\<And>k. entries s2 k = None \<or> entries s2 k = entries s k"
          using dl pc(1) by simp
      next
        case False
        then have "LargeCollection_delete pf lc d s1 = (deleted, s2)" using dl by simp
        from delete_general [OF this]
        show "\<And>k. entries s2 k = None \<or> entries s2 k = entries s k"
          using pc(1) by simp
      qed
      show "\<exists>evs. trace s2 = trace s1 @ evs \<and> list_all no_checks evs"
      proof (cases "ok check")
        case True
        then have "trace s2 = trace s1 @ []" using dl by simp
        then show ?thesis by (intro exI [of _ "[]"]) simp
      next
        case False
        then have "LargeCollection_delete pf lc d s1 = (deleted, s2)" using dl by simp
        from delete_general [OF this] show ?thesis by blast
      qed
    qed
    then obtain evs2 where t2: "trace s2 = trace s1 @ evs2" and n2: "list_all no_checks evs2"
      by blast
    have unf2: "attempt pf lc ident val overwrite s =
        (case deleted of Inl e \<Rightarrow> Thrown e s2 | Inr u \<Rightarrow> write_attempt pf lc d p s2)"
      using unf False dl by simp
    show ?thesis
    proof (cases deleted)
      case (Inl e)
      then have a: "attempt pf lc ident val overwrite s = Thrown e s2" using unf2 by simp
      have "trace s2 = trace s @ ECommit [Check (docK lc d) None] [] (ok check) # evs2"
        using t2 pc(2) by simp
      then have "\<exists>b evs. trace s2 = trace s @ ECommit [Check (docK lc d) None] [] b # evs
          \<and> list_all no_checks evs" using n2 by blast
      then show ?thesis using thrown [OF Some a fr2] by (simp add: d_def)
    next
      case (Inr u)
      then have a: "attempt pf lc ident val overwrite s = write_attempt pf lc d p s2"
        using unf2 by simp
      show ?thesis
      proof (cases rule: write_attempt_cases [OF lim wf, where d = d and p = p and ?s2.0 = s2])
        case (1 s')
        from 1(3) obtain evs where t: "trace s' = trace s2 @ evs" and n: "list_all no_checks evs"
          by blast
        have "trace s' = trace s @ ECommit [Check (docK lc d) None] [] (ok check) # (evs2 @ evs)"
          using t t2 pc(2) by simp
        moreover have "list_all no_checks (evs2 @ evs)" using n n2 by simp
        ultimately have tr: "\<exists>b evs. trace s' = trace s @ ECommit [Check (docK lc d) None] [] b # evs
            \<and> list_all no_checks evs" by blast
        have fr: "\<And>k. entries s' k = None \<or> entries s' k = entries s k"
          using 1(2) fr2 by metis
        show ?thesis using failed [OF Some _ fr] a 1(1) tr by (simp add: d_def)
      next
        case (2 vs s')
        from 2(4) obtain evs where t: "trace s' = trace s2 @ evs" and n: "list_all no_checks evs"
          by blast
        have "trace s' = trace s @ ECommit [Check (docK lc d) None] [] (ok check) # (evs2 @ evs)"
          using t t2 pc(2) by simp
        moreover have "list_all no_checks (evs2 @ evs)" using n n2 by simp
        ultimately have tr: "\<exists>b evs. trace s' = trace s @ ECommit [Check (docK lc d) None] [] b # evs
            \<and> list_all no_checks evs" by blast
        have fr: "\<And>k. k \<noteq> docK lc d \<Longrightarrow>
            k \<notin> segK lc d ` {0..<length (slices (LARGE_COLLECTION_STRING_LIMIT pf) (JSON_stringify pf p))}
            \<Longrightarrow> entries s' k = None \<or> entries s' k = entries s k"
          using 2(3) fr2 by metis
        show ?thesis using finished [OF Some _ _ _ ] a 2(1) 2(2) fr tr by (simp add: d_def)
      qed
    qed
  qed
qed

lemma probe_filter_le:
  "list_all no_checks evs \<Longrightarrow> length (filter (is_probe k0) (ECommit cs ms b # evs)) \<le> 1"
  by (simp add: no_checks_not_probe)

lemma setDocument_run:
  assumes lim: "0 < LARGE_COLLECTION_STRING_LIMIT pf" and wf: "same_length_keys lc"
  shows "\<exists>res s'. LargeCollection_setDocument pf lc ident val options overwrite s = Some (res, s')
     \<and> (\<exists>evs. trace s' = trace s @ evs
           \<and> (\<forall>k0. length (filter (is_probe k0) evs) \<le> nat (retry_of options) + 1))
     \<and> (res = Inr CommitError \<longrightarrow> (\<forall>k. entries s' k = None \<or> entries s' k = entries s k))"
proof (induction "nat (retry_of options)" arbitrary: ident val options s rule: less_induct)
  case less
  note unf = setDocument_unfold [of pf lc ident val options overwrite s]
  show ?case
  proof (cases rule: attempt_cases [OF lim wf, where ident = ident and val = val
        and overwrite = overwrite and s = s])
    case 1
    note unparsed = 1
    then have "LargeCollection_setDocument pf lc ident val options overwrite s
        = Some (Inl ModelParseError, s)" using unf by simp
    moreover have "trace s = trace s @ []
        \<and> (\<forall>k0. length (filter (is_probe k0) []) \<le> nat (retry_of options) + 1)" by simp
    ultimately show ?thesis by blast
  next
    case (2 p e s')
    note thrown = 2
    then have r: "LargeCollection_setDocument pf lc ident val options overwrite s
        = Some (Inl e, s')" using unf by simp
    from thrown(4) obtain b evs where
      t: "trace s' = trace s @ ECommit [Check (docK lc (docId_of lc ident p)) None] [] b # evs"
      and n: "list_all no_checks evs" by blast
    have "\<forall>k0. length (filter (is_probe k0)
        (ECommit [Check (docK lc (docId_of lc ident p)) None] [] b # evs))
        \<le> nat (retry_of options) + 1"
      using probe_filter_le [OF n] by (meson le_trans le_add2)
    then show ?thesis using r t by blast
  next
    case (3 p s')
    note rejected = 3
    then have r: "LargeCollection_setDocument pf lc ident val options overwrite s
        = Some (Inr CommitError, s')" using unf by simp
    have "\<forall>k0. length (filter (is_probe k0)
        [ECommit [Check (docK lc (docId_of lc ident p)) None] [] False])
        \<le> nat (retry_of options) + 1" by simp
    then show ?thesis using r rejected(4,5) by auto
  next
    case (4 p s1)
    note failed = 4
    from failed(4) obtain b evs where
      t: "trace s1 = trace s @ ECommit [Check (docK lc (docId_of lc ident p)) None] [] b # evs"
      and n: "list_all no_checks evs" by blast
    have one: "\<And>k0. length (filter (is_probe k0)
        (ECommit [Check (docK lc (docId_of lc ident p)) None] [] b # evs)) \<le> 1"
      using probe_filter_le [OF n] .
    show ?thesis
    proof (cases "retry_of options > 0")
      case False
      then have r: "LargeCollection_setDocument pf lc ident val options overwrite s
          = Some (Inr CommitError, s1)" using unf failed(2) by simp
      have "\<forall>k0. length (filter (is_probe k0)
          (ECommit [Check (docK lc (docId_of lc ident p)) None] [] b # evs))
          \<le> nat (retry_of options) + 1"
        using one by (meson le_trans le_add2)
      then show ?thesis using r t failed(3) by blast
    next
      case True
      define options' where "options' = with_retry options (retry_of options - 1)"
      have r: "LargeCollection_setDocument pf lc ident val options overwrite s
          = LargeCollection_setDocument pf lc (Some (docId_of lc ident p)) p options' overwrite s1"
        using unf failed(2) True by (simp add: options'_def)
      have dec: "nat (retry_of options') < nat (retry_of options)"
        using True by (simp add: options'_def)
      from less.hyps [OF dec, of "Some (docId_of lc ident p)" p s1]
      obtain res s' evs' where
        r': "LargeCollection_setDocument pf lc (Some (docId_of lc ident p)) p options' overwrite s1
           = Some (res, s')"
        and t': "trace s' = trace s1 @ evs'"
        and c': "\<And>k0. length (filter (is_probe k0) evs') \<le> nat (retry_of options') + 1"
        and f': "res = Inr CommitError \<longrightarrow> (\<forall>k. entries s' k = None \<or> entries s' k = entries s1 k)"
        by blast
      have tt: "trace s' = trace s
          @ (ECommit [Check (docK lc (docId_of lc ident p)) None] [] b # evs @ evs')"
        using t t' by simp
      have cnt: "\<forall>k0. length (filter (is_probe k0)
          (ECommit [Check (docK lc (docId_of lc ident p)) None] [] b # evs @ evs'))
          \<le> nat (retry_of options) + 1"
      proof
        fix k0
        have "length (filter (is_probe k0)
            (ECommit [Check (docK lc (docId_of lc ident p)) None] [] b # evs @ evs'))
            = length (filter (is_probe k0)
                (ECommit [Check (docK lc (docId_of lc ident p)) None] [] b # evs))
              + length (filter (is_probe k0) evs')"
          by simp
        also have "\<dots> \<le> 1 + (nat (retry_of options') + 1)"
          using one [of k0] c' [of k0] by (rule add_mono)
        also have "\<dots> \<le> nat (retry_of options) + 1" using dec by linarith
        finally show "length (filter (is_probe k0)
            (ECommit [Check (docK lc (docId_of lc ident p)) None] [] b # evs @ evs'))
            \<le> nat (retry_of options) + 1" .
      qed
      have fr: "res = Inr CommitError \<longrightarrow> (\<forall>k. entries s' k = None \<or> entries s' k = entries s k)"
        using f' failed(3) by metis
      have eq: "LargeCollection_setDocument pf lc ident val options overwrite s = Some (res, s')"
        using r r' by simp
      have "trace s' = trace s
          @ (ECommit [Check (docK lc (docId_of lc ident p)) None] [] b # evs @ evs')
        \<and> (\<forall>k0. length (filter (is_probe k0)
          (ECommit [Check (docK lc (docId_of lc ident p)) None] [] b # evs @ evs'))
          \<le> nat (retry_of options) + 1)"
        using tt cnt by simp
      then have ex: "\<exists>evs. trace s' = trace s @ evs
          \<and> (\<forall>k0. length (filter (is_probe k0) evs) \<le> nat (retry_of options) + 1)"
        by (rule exI)
      show ?thesis
        by (rule exI [of _ res], rule exI [of _ s']) (use eq ex fr in simp)
    qed
  next
    case (5 p vs s')
    note finished = 5
    then have r: "LargeCollection_setDocument pf lc ident val options overwrite s
        = Some (Inr (CommitResult (docId_of lc ident p) vs), s')" using unf by simp
    from finished(5) obtain b evs where
      t: "trace s' = trace s @ ECommit [Check (docK lc (docId_of lc ident p)) None] [] b # evs"
      and n: "list_all no_checks evs" by blast
    have "\<forall>k0. length (filter (is_probe k0)
        (ECommit [Check (docK lc (docId_of lc ident p)) None] [] b # evs))
        \<le> nat (retry_of options) + 1"
      using probe_filter_le [OF n] by (meson le_trans le_add2)
    then show ?thesis using r t by blast
  qed
qed

lemma setDocument_success:
  assumes lim: "0 < LARGE_COLLECTION_STRING_LIMIT pf" and wf: "same_length_keys lc"
    and res: "LargeCollection_setDocument pf lc ident val options overwrite s
       = Some (Inr (CommitResult d vs), s')"
  shows "\<exists>n p p1. l_model_parse lc val = Some p1 \<and> d = docId_of lc ident p1
     \<and> n \<le> nat (retry_of options) \<and> parse_times (l_model_parse lc) n p1 = Some p
     \<and> stored_document pf lc d (JSON_stringify pf p) vs s'
     \<and> (\<forall>k. k \<noteq> docK lc d \<longrightarrow>
            k \<notin> segK lc d ` {0..<length (slices (LARGE_COLLECTION_STRING_LIMIT pf)
                                  (JSON_stringify pf p))}
            \<longrightarrow> entries s' k = None \<or> entries s' k = entries s k)"
  using res
proof (induction "nat (retry_of options)" arbitrary: ident val options s rule: less_induct)
  case less
  note unf = setDocument_unfold [of pf lc ident val options overwrite s]
  show ?case
  proof (cases rule: attempt_cases [OF lim wf, where ident = ident and val = val
        and overwrite = overwrite and s = s])
    case 1
    note unparsed = 1
    then show ?thesis using unf less.prems by simp
  next
    case (2 p e s1)
    note thrown = 2
    then show ?thesis using unf less.prems by simp
  next
    case (3 p s1)
    note rejected = 3
    then show ?thesis using unf less.prems by simp
  next
    case (4 p1 s1)
    note failed = 4
    show ?thesis
    proof (cases "retry_of options > 0")
      case False
      then show ?thesis using unf failed(2) less.prems by simp
    next
      case True
      define options' where "options' = with_retry options (retry_of options - 1)"
      have r: "LargeCollection_setDocument pf lc (Some (docId_of lc ident p1)) p1 options'
          overwrite s1 = Some (Inr (CommitResult d vs), s')"
        using unf failed(2) True less.prems by (simp add: options'_def)
      have dec: "nat (retry_of options') < nat (retry_of options)"
        using True by (simp add: options'_def)
      from less.hyps [OF dec r]
      obtain n p p2 where
        p2: "l_model_parse lc p1 = Some p2"
        and d: "d = docId_of lc (Some (docId_of lc ident p1)) p2"
        and n: "n \<le> nat (retry_of options')"
        and pt: "parse_times (l_model_parse lc) n p2 = Some p"
        and sd: "stored_document pf lc d (JSON_stringify pf p) vs s'"
        and fr: "\<forall>k. k \<noteq> docK lc d \<longrightarrow>
            k \<notin> segK lc d ` {0..<length (slices (LARGE_COLLECTION_STRING_LIMIT pf)
                                  (JSON_stringify pf p))}
            \<longrightarrow> entries s' k = None \<or> entries s' k = entries s1 k"
        by blast
      have d': "d = docId_of lc ident p1" using d by (simp add: docId_of_def)
      have n': "Suc n \<le> nat (retry_of options)" using n dec by linarith
      have pt': "parse_times (l_model_parse lc) (Suc n) p1 = Some p" using p2 pt by simp
      have fr': "\<forall>k. k \<noteq> docK lc d \<longrightarrow>
            k \<notin> segK lc d ` {0..<length (slices (LARGE_COLLECTION_STRING_LIMIT pf)
                                  (JSON_stringify pf p))}
            \<longrightarrow> entries s' k = None \<or> entries s' k = entries s k"
        using fr failed(3) by metis
      show ?thesis using failed(1) d' n' pt' sd fr' by blast
    qed
  next
    case (5 p vs1 s1)
    note finished = 5
    then have "d = docId_of lc ident p" "vs1 = vs" "s1 = s'" using unf less.prems by simp_all
    moreover have "parse_times (l_model_parse lc) 0 p = Some p" by simp
    ultimately show ?thesis using finished(1,3,4) by blast
  qed
qed

lemmas eval_defs =
  setDocument_unfold attempt_def write_attempt_def jsonPartsLoop_slices slices.simps
  useAtomics_def pf0_def lc0_def newLargeCollection_def empty_store_def bracket_stringify_def
  bracket_parse_def extendKey_def atomic_commit_def atomic_def op_check_def op_set_def
  op_mutate_def op_delete_def refused_def set_segment_def entry_of_keys_def
  largeDocumentEntry_def getDocumentId_def retry_of_def with_retry_def Let_def
  kv_get_def kv_delete_def KVDEX_KEY_PREFIX_def ID_KEY_PREFIX_def SEGMENT_KEY_PREFIX_def
  LargeCollection_find_def constructLargeDocument_def LargeCollection_delete_def
  delete_segment_def substring_def docK_def segK_def segIdK_def join_parts_def

text \<open>
  The layout that a successful \<^verbatim>\<open>setDocument\<close> leaves. It has encoded a value \<open>p\<close>,
  the result of the model's parse, or of the parse applied again to that result by a retry
  (see below). With \<open>n\<close> the length of its JSON text,
  which is positive, and \<open>m = ceil(n / LARGE_COLLECTION_STRING_LIMIT)\<close>: the segment keys
  with the indices \<open>0, ..., m - 1\<close> hold the slices of the text, each of them not empty and
  within the limit, whose concatenation in index order is the text; the manifest at the id
  key lists exactly these indices in that order; and no other key of the store holds an
  entry that was not there before.
\<close>

lemma setDocument_segments:
  assumes "0 < LARGE_COLLECTION_STRING_LIMIT pf" and "same_length_keys lc"
    and "LargeCollection_setDocument pf lc ident val options overwrite s
       = Some (Inr (CommitResult d vs), s')"
  shows "\<exists>n p p1. l_model_parse lc val = Some p1 \<and> d = docId_of lc ident p1
     \<and> n \<le> nat (retry_of options) \<and> parse_times (l_model_parse lc) n p1 = Some p
     \<and> (let json = JSON_stringify pf p;
             parts = slices (LARGE_COLLECTION_STRING_LIMIT pf) json;
             m = length parts
         in 0 < length json
            \<and> m = (length json + LARGE_COLLECTION_STRING_LIMIT pf - 1)
                    div LARGE_COLLECTION_STRING_LIMIT pf
            \<and> concat parts = json
            \<and> (\<forall>part\<in>set parts. part \<noteq> [] \<and> length part \<le> LARGE_COLLECTION_STRING_LIMIT pf)
            \<and> entries s' (docK lc d) =
                Some (largeDocumentEntry (map (\<lambda>j. VNum (int j)) [0..<m]), vs)
            \<and> (\<forall>j<m. \<exists>vsj. entries s' (segK lc d j) = Some (VStr (parts ! j), vsj))
            \<and> (\<forall>k. k \<noteq> docK lc d \<longrightarrow> k \<notin> segK lc d ` {0..<m}
                  \<longrightarrow> entries s' k = None \<or> entries s' k = entries s k))"
proof -
  from setDocument_success [OF assms]
  obtain n p p1 where
    a: "l_model_parse lc val = Some p1" "d = docId_of lc ident p1"
      "n \<le> nat (retry_of options)" "parse_times (l_model_parse lc) n p1 = Some p"
    and sd: "stored_document pf lc d (JSON_stringify pf p) vs s'"
    and fr: "\<forall>k. k \<noteq> docK lc d \<longrightarrow>
        k \<notin> segK lc d ` {0..<length (slices (LARGE_COLLECTION_STRING_LIMIT pf)
                              (JSON_stringify pf p))}
        \<longrightarrow> entries s' k = None \<or> entries s' k = entries s k"
    by blast
  define json where "json = JSON_stringify pf p"
  define parts where "parts = slices (LARGE_COLLECTION_STRING_LIMIT pf) json"
  have pne: "parts \<noteq> []"
    and man: "entries s' (docK lc d) =
        Some (largeDocumentEntry (map (\<lambda>j. VNum (int j)) [0..<length parts]), vs)"
    and segs: "\<forall>j<length parts. \<exists>vsj. entries s' (segK lc d j) = Some (VStr (parts ! j), vsj)"
    using sd by (simp_all add: stored_document_def Let_def parts_def json_def)
  have jne: "0 < length json" using pne by (cases "json = []") (auto simp: parts_def)
  have len: "length parts = (length json + LARGE_COLLECTION_STRING_LIMIT pf - 1)
      div LARGE_COLLECTION_STRING_LIMIT pf"
    using length_slices [OF assms(1)] by (simp add: parts_def)
  have cc: "concat parts = json" using concat_slices [OF assms(1)] by (simp add: parts_def)
  have bd: "\<forall>part\<in>set parts. part \<noteq> [] \<and> length part \<le> LARGE_COLLECTION_STRING_LIMIT pf"
    using slices_nonempty slices_bounded by (auto simp: parts_def)
  have "let json = JSON_stringify pf p;
            parts = slices (LARGE_COLLECTION_STRING_LIMIT pf) json;
            m = length parts
        in 0 < length json
           \<and> m = (length json + LARGE_COLLECTION_STRING_LIMIT pf - 1)
                   div LARGE_COLLECTION_STRING_LIMIT pf
           \<and> concat parts = json
           \<and> (\<forall>part\<in>set parts. part \<noteq> [] \<and> length part \<le> LARGE_COLLECTION_STRING_LIMIT pf)
           \<and> entries s' (docK lc d) =
               Some (largeDocumentEntry (map (\<lambda>j. VNum (int j)) [0..<m]), vs)
           \<and> (\<forall>j<m. \<exists>vsj. entries s' (segK lc d j) = Some (VStr (parts ! j), vsj))
           \<and> (\<forall>k. k \<noteq> docK lc d \<longrightarrow> k \<notin> segK lc d ` {0..<m}
                 \<longrightarrow> entries s' k = None \<or> entries s' k = entries s k)"
    unfolding Let_def json_def [symmetric] parts_def [symmetric]
    using jne len cc bd man segs fr [unfolded json_def [symmetric] parts_def [symmetric]]
    by blast
  then show ?thesis using a by blast
qed

lemma setDocument_segments_example:
  "0 < LARGE_COLLECTION_STRING_LIMIT pf0 \<and> same_length_keys lc0
   \<and> LargeCollection_setDocument pf0 lc0 (Some (VStr ''a'')) ''xyz'' None False empty_store
       = Some (Inr (CommitResult (VStr ''a'') 3), after_set)
   \<and> 2 * length (JSON_stringify pf0 ''xyz'') = 5 * LARGE_COLLECTION_STRING_LIMIT pf0
   \<and> entries after_set (docK lc0 (VStr ''a'')) =
       Some (largeDocumentEntry [VNum 0, VNum 1, VNum 2], 3)
   \<and> (\<exists>n p p1. l_model_parse lc0 ''xyz'' = Some p1
         \<and> VStr ''a'' = docId_of lc0 (Some (VStr ''a'')) p1
         \<and> n \<le> nat (retry_of None) \<and> parse_times (l_model_parse lc0) n p1 = Some p
         \<and> (let json = JSON_stringify pf0 p;
                 parts = slices (LARGE_COLLECTION_STRING_LIMIT pf0) json;
                 m = length parts
             in 0 < length json
                \<and> m = (length json + LARGE_COLLECTION_STRING_LIMIT pf0 - 1)
                        div LARGE_COLLECTION_STRING_LIMIT pf0
                \<and> concat parts = json
                \<and> (\<forall>part\<in>set parts. part \<noteq> [] \<and> length part \<le> LARGE_COLLECTION_STRING_LIMIT pf0)
                \<and> entries after_set (docK lc0 (VStr ''a'')) =
                    Some (largeDocumentEntry (map (\<lambda>j. VNum (int j)) [0..<m]), 3)
                \<and> (\<forall>j<m. \<exists>vsj. entries after_set (segK lc0 (VStr ''a'') j)
                       = Some (VStr (parts ! j), vsj))
                \<and> (\<forall>k. k \<noteq> docK lc0 (VStr ''a'') \<longrightarrow> k \<notin> segK lc0 (VStr ''a'') ` {0..<m}
                      \<longrightarrow> entries after_set k = None
                          \<or> entries after_set k = entries empty_store k)))"
proof -
  have a: "0 < LARGE_COLLECTION_STRING_LIMIT pf0" by (simp add: pf0_def)
  have b: "same_length_keys lc0" by (simp add: lc0_def)
  have c: "LargeCollection_setDocument pf0 lc0 (Some (VStr ''a'')) ''xyz'' None False empty_store
       = Some (Inr (CommitResult (VStr ''a'') 3), after_set)"
    unfolding after_set_def by (simp add: eval_defs)
  have d: "2 * length (JSON_stringify pf0 ''xyz'') = 5 * LARGE_COLLECTION_STRING_LIMIT pf0"
    by (simp add: pf0_def bracket_stringify_def)
  have e: "entries after_set (docK lc0 (VStr ''a'')) =
       Some (largeDocumentEntry [VNum 0, VNum 1, VNum 2], 3)"
    unfolding after_set_def by (simp add: eval_defs)
  show ?thesis using a b c d e setDocument_segments [OF a b c] by blast
qed

text \<open>
  C4. The segments of a successful \<^verbatim>\<open>setDocument\<close> are to be the slices of the JSON
  encoding of the value, \<open>ceil(n / LARGE_COLLECTION_STRING_LIMIT)\<close> of them for an encoding
  of length \<open>n\<close>. The first attempt writes them so; a retry does not: it passes the parsed
  value to \<^verbatim>\<open>setDocument\<close>, which parses it again and encodes the result of that. Here
  the model's parse appends a mark, the limit is 2 and the store refuses the first batch of
  segments: the encoding of the parsed value has length 4, which makes 2 segments, and the
  call with one retry succeeds with the manifest \<open>[0, 1, 2]\<close> and three segments, the
  slices of the encoding of the value parsed twice.
\<close>

theorem setDocument_segments_after_retry:
  "l_model_parse lc1 ''x'' = Some ''x!''
   \<and> JSON_stringify pf0 ''x!'' = ''[x!]''
   \<and> (length ''[x!]'' + LARGE_COLLECTION_STRING_LIMIT pf0 - 1)
        div LARGE_COLLECTION_STRING_LIMIT pf0 = 2
   \<and> LargeCollection_setDocument pf0 lc1 (Some (VStr ''a'')) ''x''
        (Some \<lparr>retry = Some 1\<rparr>) False flaky_store
       = Some (Inr (CommitResult (VStr ''a'') 4), after_retry)
   \<and> entries after_retry (docK lc1 (VStr ''a''))
       = Some (largeDocumentEntry [VNum 0, VNum 1, VNum 2], 4)
   \<and> seg_value after_retry (segK lc1 (VStr ''a'') 0) = VStr ''[x''
   \<and> seg_value after_retry (segK lc1 (VStr ''a'') 1) = VStr ''!!''
   \<and> seg_value after_retry (segK lc1 (VStr ''a'') 2) = VStr '']''"
proof -
  have a: "l_model_parse lc1 ''x'' = Some ''x!''"
    by (simp add: lc1_def newLargeCollection_def)
  have b: "JSON_stringify pf0 ''x!'' = ''[x!]''"
    by (simp add: pf0_def bracket_stringify_def)
  have c: "(length ''[x!]'' + LARGE_COLLECTION_STRING_LIMIT pf0 - 1)
        div LARGE_COLLECTION_STRING_LIMIT pf0 = 2"
    by (simp add: pf0_def)
  have d: "LargeCollection_setDocument pf0 lc1 (Some (VStr ''a'')) ''x''
        (Some \<lparr>retry = Some 1\<rparr>) False flaky_store
       = Some (Inr (CommitResult (VStr ''a'') 4), after_retry)"
    unfolding after_retry_def by (simp add: eval_defs lc1_def flaky_store_def)
  have e: "entries after_retry (docK lc1 (VStr ''a''))
       = Some (largeDocumentEntry [VNum 0, VNum 1, VNum 2], 4)"
    unfolding after_retry_def by (simp add: eval_defs lc1_def flaky_store_def)
  have f: "seg_value after_retry (segK lc1 (VStr ''a'') 0) = VStr ''[x''"
    "seg_value after_retry (segK lc1 (VStr ''a'') 1) = VStr ''!!''"
    "seg_value after_retry (segK lc1 (VStr ''a'') 2) = VStr '']''"
    unfolding after_retry_def by (simp_all add: eval_defs lc1_def flaky_store_def seg_value_def)
  show ?thesis using a b c d e f by simp
qed

text \<open>
  C7. \<^verbatim>\<open>setDocument\<close> returns (when the string limit is positive), and it makes at most
  \<open>retry + 1\<close> attempts: each attempt opens with one probe of the id key, and the probes
  made are at most \<open>retry + 1\<close>. An attempt that fails (a segment batch or the manifest
  commit was not ok) leaves no entry that was not there before it, so every segment key it
  wrote is deleted; the operation then calls itself with \<open>retry - 1\<close> while
  \<open>retry > 0\<close>, and returns \<open>{ok: false}\<close> otherwise. A call that returns \<open>{ok: false}\<close>
  has left no entry that was not there before.
\<close>

theorem setDocument_bounded_retries:
  assumes "0 < LARGE_COLLECTION_STRING_LIMIT pf" and "same_length_keys lc"
  shows "(\<exists>res s'. LargeCollection_setDocument pf lc ident val options overwrite s = Some (res, s')
            \<and> probes k s' \<le> probes k s + nat (retry_of options) + 1
            \<and> (res = Inr CommitError \<longrightarrow>
                 (\<forall>k'. entries s' k' = None \<or> entries s' k' = entries s k')))
     \<and> (\<forall>docId parsed s1.
           attempt pf lc ident val overwrite s = Failed docId parsed s1 \<longrightarrow>
             (\<forall>k'. entries s1 k' = None \<or> entries s1 k' = entries s k')
             \<and> LargeCollection_setDocument pf lc ident val options overwrite s =
                 (if retry_of options > 0
                  then LargeCollection_setDocument pf lc (Some docId) parsed
                         (with_retry options (retry_of options - 1)) overwrite s1
                  else Some (Inr CommitError, s1)))"
proof (intro conjI allI impI)
  from setDocument_run [OF assms, of ident val options overwrite s]
  obtain res s' evs where
    r: "LargeCollection_setDocument pf lc ident val options overwrite s = Some (res, s')"
    and t: "trace s' = trace s @ evs"
    and c: "\<And>k0. length (filter (is_probe k0) evs) \<le> nat (retry_of options) + 1"
    and f: "res = Inr CommitError \<longrightarrow> (\<forall>k'. entries s' k' = None \<or> entries s' k' = entries s k')"
    by blast
  have "probes k s' \<le> probes k s + nat (retry_of options) + 1"
    using c [of k] by (simp add: probes_def t)
  then show "\<exists>res s'. LargeCollection_setDocument pf lc ident val options overwrite s
      = Some (res, s')
      \<and> probes k s' \<le> probes k s + nat (retry_of options) + 1
      \<and> (res = Inr CommitError \<longrightarrow>
           (\<forall>k'. entries s' k' = None \<or> entries s' k' = entries s k'))"
    using r f by blast
next
  fix docId parsed s1 k'
  assume a: "attempt pf lc ident val overwrite s = Failed docId parsed s1"
  show "entries s1 k' = None \<or> entries s1 k' = entries s k'"
    using a by (cases rule: attempt_cases [OF assms, where ident = ident and val = val
          and overwrite = overwrite and s = s]) auto
next
  fix docId parsed s1
  assume a: "attempt pf lc ident val overwrite s = Failed docId parsed s1"
  show "LargeCollection_setDocument pf lc ident val options overwrite s =
      (if retry_of options > 0
       then LargeCollection_setDocument pf lc (Some docId) parsed
              (with_retry options (retry_of options - 1)) overwrite s1
       else Some (Inr CommitError, s1))"
    using a by (simp add: setDocument_unfold)
qed

theorem setDocument_bounded_retries_witness:
  "0 < LARGE_COLLECTION_STRING_LIMIT pf0 \<and> same_length_keys lc0
   \<and> retry_of (Some \<lparr>retry = Some 2\<rparr>) = 2
   \<and> fst (the (LargeCollection_setDocument pf0 lc0 (Some (VStr ''a'')) ''xyz''
         (Some \<lparr>retry = Some 2\<rparr>) False refusing_store)) = Inr CommitError
   \<and> probes (docK lc0 (VStr ''a'')) (snd (the (LargeCollection_setDocument pf0 lc0
         (Some (VStr ''a'')) ''xyz'' (Some \<lparr>retry = Some 2\<rparr>) False refusing_store))) = 3
   \<and> entries (snd (the (LargeCollection_setDocument pf0 lc0
         (Some (VStr ''a'')) ''xyz'' (Some \<lparr>retry = Some 2\<rparr>) False refusing_store)))
       = Map.empty
   \<and> (\<exists>res s'. LargeCollection_setDocument pf0 lc0 (Some (VStr ''a'')) ''xyz''
           (Some \<lparr>retry = Some 2\<rparr>) False refusing_store = Some (res, s')
         \<and> probes (docK lc0 (VStr ''a'')) s'
             \<le> probes (docK lc0 (VStr ''a'')) refusing_store
                + nat (retry_of (Some \<lparr>retry = Some 2\<rparr>)) + 1
         \<and> (res = Inr CommitError \<longrightarrow>
              (\<forall>k'. entries s' k' = None \<or> entries s' k' = entries refusing_store k')))"
proof -
  have a: "0 < LARGE_COLLECTION_STRING_LIMIT pf0" by (simp add: pf0_def)
  have b: "same_length_keys lc0" by (simp add: lc0_def)
  have c: "retry_of (Some \<lparr>retry = Some 2\<rparr>) = 2" by (simp add: retry_of_def)
  have d: "fst (the (LargeCollection_setDocument pf0 lc0 (Some (VStr ''a'')) ''xyz''
         (Some \<lparr>retry = Some 2\<rparr>) False refusing_store)) = Inr CommitError"
    by (simp add: eval_defs refusing_store_def)
  have e: "probes (docK lc0 (VStr ''a'')) (snd (the (LargeCollection_setDocument pf0 lc0
         (Some (VStr ''a'')) ''xyz'' (Some \<lparr>retry = Some 2\<rparr>) False refusing_store))) = 3"
    by (simp add: eval_defs refusing_store_def probes_def)
  have f: "entries (snd (the (LargeCollection_setDocument pf0 lc0
         (Some (VStr ''a'')) ''xyz'' (Some \<lparr>retry = Some 2\<rparr>) False refusing_store)))
       = Map.empty"
    by (simp add: eval_defs refusing_store_def)
  show ?thesis
    using a b c d e f
      setDocument_bounded_retries [OF a b, where ident = "Some (VStr ''a'')" and val = "''xyz''"
        and options = "Some \<lparr>retry = Some 2\<rparr>" and overwrite = False and s = refusing_store
        and k = "docK lc0 (VStr ''a'')"]
    by blast
qed

section \<open>LargeCollection.find\<close>

lemma foldl_truthy:
  "foldl (\<lambda>parts entry. if truthy (fst entry) then parts @ [fst entry] else parts) acc es
     = acc @ filter truthy (map fst es)"
  by (induction es arbitrary: acc) auto

lemma length_filter_eq: "(length (filter P xs) = length xs) = (\<forall>x\<in>set xs. P x)"
proof (induction xs)
  case Nil
  then show ?case by simp
next
  case (Cons x xs)
  show ?case
  proof (cases "P x")
    case True
    then show ?thesis using Cons by simp
  next
    case False
    have "length (filter P xs) < Suc (length xs)"
      by (simp add: less_Suc_eq_le)
    then show ?thesis using False by simp
  qed
qed

lemma fst_entry: "fst (case e of None \<Rightarrow> (VNull, None) | Some (v, vs) \<Rightarrow> (v, Some vs))
    = (case e of None \<Rightarrow> VNull | Some (v, vs) \<Rightarrow> v)"
  by (cases e) auto

lemma construct_unfold:
  "fst (constructLargeDocument pf lc d v vs s) =
     (case entry_ids v of
        None \<Rightarrow> Inl TypeError
      | Some ids \<Rightarrow>
          if \<not> list_all truthy (map (\<lambda>segId. seg_value s (segIdK lc d segId)) ids)
          then Inl CorruptedDocumentDataError
          else (case JSON_parse pf
                       (join_parts (map (\<lambda>segId. seg_value s (segIdK lc d segId)) ids)) of
                  None \<Rightarrow> Inl CorruptedDocumentDataError
                | Some x \<Rightarrow> Inr \<lparr>doc_id = d, doc_value = x, doc_versionstamp = vs\<rparr>))"
proof (cases "entry_ids v")
  case None
  then show ?thesis by (simp add: constructLargeDocument_def)
next
  case (Some ids)
  define vals where "vals = map (\<lambda>segId. seg_value s (segIdK lc d segId)) ids"
  define s1 where "s1 = s\<lparr>trace := trace s
      @ map EGet (map (\<lambda>segId. extendKey (segmentKey (l_keys lc)) [d, segId]) ids)\<rparr>"
  have m: "map fst (map (\<lambda>k. case entries s k of None \<Rightarrow> (VNull, None)
      | Some (v, vs) \<Rightarrow> (v, Some vs))
      (map (\<lambda>segId. extendKey (segmentKey (l_keys lc)) [d, segId]) ids)) = vals"
    by (simp add: vals_def seg_value_def segIdK_def comp_def fst_entry)
  have step: "constructLargeDocument pf lc d v vs s =
      (if length (filter truthy vals) \<noteq> length ids then (Inl CorruptedDocumentDataError, s1)
       else (case JSON_parse pf (join_parts (filter truthy vals)) of
               None \<Rightarrow> (Inl CorruptedDocumentDataError, s1)
             | Some x \<Rightarrow>
                 (Inr \<lparr>doc_id = d, doc_value = x, doc_versionstamp = vs\<rparr>, s1)))"
    by (simp only: constructLargeDocument_def Some option.case Let_def kvGetMany_eq prod.case
        foldl_truthy append_Nil m length_map s1_def)
  have li: "length ids = length vals" by (simp add: vals_def)
  have l: "length (filter truthy vals) = length vals \<longleftrightarrow> list_all truthy vals"
    by (simp add: length_filter_eq list_all_iff)
  show ?thesis
  proof (cases "list_all truthy vals")
    case True
    then have "filter truthy vals = vals" by (simp add: filter_id_conv list_all_iff)
    then show ?thesis
      using Some True li
      by (simp add: step vals_def [symmetric] split: option.splits)
  next
    case False
    then have "length (filter truthy vals) \<noteq> length ids" using l li by simp
    then show ?thesis
      using Some False by (simp add: step vals_def [symmetric])
  qed
qed

lemma find_unfold:
  "fst (LargeCollection_find pf lc d s) =
     (case entries s (docK lc d) of
        None \<Rightarrow> Inr None
      | Some (v, vs) \<Rightarrow>
          if v = VNull then Inr None
          else (case fst (constructLargeDocument pf lc d v vs
                       (s\<lparr>trace := trace s @ [EGet (docK lc d)]\<rparr>)) of
                  Inl e \<Rightarrow> Inl e
                | Inr doc \<Rightarrow> Inr (Some doc)))"
proof (cases "entries s (docK lc d)")
  case None
  then show ?thesis by (simp add: LargeCollection_find_def kv_get_def docK_def Let_def)
next
  case (Some e)
  obtain v vs where e: "e = (v, vs)" by (cases e)
  obtain r s2 where c: "constructLargeDocument pf lc d v vs
      (s\<lparr>trace := trace s @ [EGet (docK lc d)]\<rparr>) = (r, s2)"
    by (cases "constructLargeDocument pf lc d v vs (s\<lparr>trace := trace s @ [EGet (docK lc d)]\<rparr>)")
  show ?thesis
    using Some e c
    by (cases r) (simp_all add: LargeCollection_find_def kv_get_def docK_def Let_def)
qed

lemma seg_value_trace [simp]: "seg_value (s\<lparr>trace := t\<rparr>) k = seg_value s k"
  by (simp add: seg_value_def)

lemma join_parts_strings: "join_parts (map VStr strs) = concat strs"
  by (simp add: join_parts_def comp_def)

lemma find_stored:
  assumes lim: "0 < LARGE_COLLECTION_STRING_LIMIT pf"
    and sd: "stored_document pf lc d json vs s"
  shows "fst (LargeCollection_find pf lc d s) =
     (case JSON_parse pf json of
        None \<Rightarrow> Inl CorruptedDocumentDataError
      | Some x \<Rightarrow> Inr (Some \<lparr>doc_id = d, doc_value = x, doc_versionstamp = vs\<rparr>))"
proof -
  define parts where "parts = slices (LARGE_COLLECTION_STRING_LIMIT pf) json"
  have man: "entries s (docK lc d) =
        Some (largeDocumentEntry (map (\<lambda>j. VNum (int j)) [0..<length parts]), vs)"
    and segs: "\<forall>j<length parts. \<exists>vsj. entries s (segK lc d j) = Some (VStr (parts ! j), vsj)"
    using sd by (simp_all add: stored_document_def Let_def parts_def)
  have vals: "map (\<lambda>segId. seg_value s (segIdK lc d segId))
      (map (\<lambda>j. VNum (int j)) [0..<length parts]) = map VStr parts"
  proof (rule nth_equalityI)
    show "length (map (\<lambda>segId. seg_value s (segIdK lc d segId))
        (map (\<lambda>j. VNum (int j)) [0..<length parts])) = length (map VStr parts)"
      by simp
  next
    fix i
    assume "i < length (map (\<lambda>segId. seg_value s (segIdK lc d segId))
        (map (\<lambda>j. VNum (int j)) [0..<length parts]))"
    then have i: "i < length parts" by simp
    with segs obtain vsj where "entries s (segK lc d i) = Some (VStr (parts ! i), vsj)"
      by blast
    then have "seg_value s (segIdK lc d (VNum (int i))) = VStr (parts ! i)"
      by (simp add: seg_value_def segK_segIdK)
    then show "map (\<lambda>segId. seg_value s (segIdK lc d segId))
        (map (\<lambda>j. VNum (int j)) [0..<length parts]) ! i = map VStr parts ! i"
      using i by simp
  qed
  have tr: "list_all truthy (map VStr parts)"
    using slices_nonempty by (auto simp: list_all_iff parts_def)
  have cc: "concat parts = json" using concat_slices [OF lim] by (simp add: parts_def)
  have ne: "largeDocumentEntry (map (\<lambda>j. VNum (int j)) [0..<length parts]) \<noteq> VNull"
    by (simp add: largeDocumentEntry_def)
  show ?thesis
    using man ne vals tr cc
    by (simp add: find_unfold construct_unfold join_parts_strings split: option.splits)
qed

lemma parse_times_fixed: "f p = Some p \<Longrightarrow> parse_times f n p = Some p"
  by (induction n) auto

text \<open>
  C2. A successful \<^verbatim>\<open>setDocument\<close> followed by \<^verbatim>\<open>find\<close> of the id is to return the
  document whose value is the value given after the model's normalization. The first
  attempt does so (see the next lemma); a retry passes the parsed value to
  \<^verbatim>\<open>setDocument\<close>, which parses it again. Here the model's parse appends a mark and the
  store refuses the first batch of segments: the call with one retry succeeds, and the
  document read back has the value \<open>x!!\<close> where the normalization of \<open>x\<close> is \<open>x!\<close>.
\<close>

theorem find_after_retry:
  "l_model_parse lc1 ''x'' = Some ''x!''
   \<and> JSON_parse pf0 (JSON_stringify pf0 ''x!'') = Some ''x!''
   \<and> entries flaky_store = Map.empty
   \<and> LargeCollection_setDocument pf0 lc1 (Some (VStr ''a'')) ''x''
        (Some \<lparr>retry = Some 1\<rparr>) False flaky_store
       = Some (Inr (CommitResult (VStr ''a'') 4), after_retry)
   \<and> fst (LargeCollection_find pf0 lc1 (VStr ''a'') after_retry)
       = Inr (Some \<lparr>doc_id = VStr ''a'', doc_value = ''x!!'', doc_versionstamp = 4\<rparr>)"
proof -
  have a: "l_model_parse lc1 ''x'' = Some ''x!''"
    by (simp add: lc1_def newLargeCollection_def)
  have b: "JSON_parse pf0 (JSON_stringify pf0 ''x!'') = Some ''x!''"
    by (simp add: pf0_def bracket_stringify_def bracket_parse_def)
  have c: "entries flaky_store = Map.empty"
    by (simp add: flaky_store_def empty_store_def)
  have d: "LargeCollection_setDocument pf0 lc1 (Some (VStr ''a'')) ''x''
        (Some \<lparr>retry = Some 1\<rparr>) False flaky_store
       = Some (Inr (CommitResult (VStr ''a'') 4), after_retry)"
    unfolding after_retry_def by (simp add: eval_defs lc1_def flaky_store_def)
  have e: "fst (LargeCollection_find pf0 lc1 (VStr ''a'') after_retry)
       = Inr (Some \<lparr>doc_id = VStr ''a'', doc_value = ''x!!'', doc_versionstamp = 4\<rparr>)"
    unfolding after_retry_def by (simp add: eval_defs lc1_def flaky_store_def)
  show ?thesis using a b c d e by simp
qed

text \<open>
  The round trip where no second parse can change the value: when no retry is allowed, or
  the model's parse leaves the parsed value as it is, and \<^verbatim>\<open>JSON.parse\<close> gives back the
  parsed value from its \<^verbatim>\<open>JSON.stringify\<close> text, a successful \<^verbatim>\<open>setDocument\<close>
  followed by \<^verbatim>\<open>find\<close> of the id returns the document whose value is the model's parse
  of the value given.
\<close>

lemma find_after_setDocument:
  assumes "0 < LARGE_COLLECTION_STRING_LIMIT pf" and "same_length_keys lc"
    and "l_model_parse lc p = Some p \<or> retry_of options \<le> 0"
    and "l_model_parse lc val = Some p"
    and "JSON_parse pf (JSON_stringify pf p) = Some p"
    and "LargeCollection_setDocument pf lc ident val options overwrite s
       = Some (Inr (CommitResult d vs), s')"
  shows "fst (LargeCollection_find pf lc d s')
     = Inr (Some \<lparr>doc_id = d, doc_value = p, doc_versionstamp = vs\<rparr>)"
proof -
  from setDocument_success [OF assms(1,2,6)]
  obtain n q p1 where
    p1: "l_model_parse lc val = Some p1"
    and n: "n \<le> nat (retry_of options)"
    and pt: "parse_times (l_model_parse lc) n p1 = Some q"
    and sd: "stored_document pf lc d (JSON_stringify pf q) vs s'"
    by blast
  have "p1 = p" using p1 assms(4) by simp
  have "q = p"
    using assms(3)
  proof
    assume "l_model_parse lc p = Some p"
    then have "parse_times (l_model_parse lc) n p = Some p" by (rule parse_times_fixed)
    then show ?thesis using pt \<open>p1 = p\<close> by simp
  next
    assume "retry_of options \<le> 0"
    then have "n = 0" using n by simp
    then show ?thesis using pt \<open>p1 = p\<close> by simp
  qed
  then show ?thesis using find_stored [OF assms(1) sd] assms(5) by simp
qed

lemma find_after_setDocument_example:
  "0 < LARGE_COLLECTION_STRING_LIMIT pf0 \<and> same_length_keys lc0
   \<and> retry_of None \<le> 0
   \<and> l_model_parse lc0 ''xyz'' = Some ''xyz''
   \<and> JSON_parse pf0 (JSON_stringify pf0 ''xyz'') = Some ''xyz''
   \<and> LargeCollection_setDocument pf0 lc0 (Some (VStr ''a'')) ''xyz'' None False empty_store
       = Some (Inr (CommitResult (VStr ''a'') 3), after_set)
   \<and> fst (LargeCollection_find pf0 lc0 (VStr ''a'') after_set)
       = Inr (Some \<lparr>doc_id = VStr ''a'', doc_value = ''xyz'', doc_versionstamp = 3\<rparr>)"
proof -
  have a: "0 < LARGE_COLLECTION_STRING_LIMIT pf0" by (simp add: pf0_def)
  have b: "same_length_keys lc0" by (simp add: lc0_def)
  have c': "retry_of None \<le> 0" by (simp add: retry_of_def)
  then have c: "l_model_parse lc0 ''xyz'' = Some ''xyz'' \<or> retry_of None \<le> 0" by simp
  have d: "l_model_parse lc0 ''xyz'' = Some ''xyz''" by (simp add: lc0_def newLargeCollection_def)
  have e: "JSON_parse pf0 (JSON_stringify pf0 ''xyz'') = Some ''xyz''"
    by (simp add: pf0_def bracket_stringify_def bracket_parse_def)
  have f: "LargeCollection_setDocument pf0 lc0 (Some (VStr ''a'')) ''xyz'' None False empty_store
       = Some (Inr (CommitResult (VStr ''a'') 3), after_set)"
    unfolding after_set_def by (simp add: eval_defs)
  show ?thesis using a b c' d e f find_after_setDocument [OF a b c d e f] by simp
qed

text \<open>
  C5, as the code has it. \<^verbatim>\<open>constructLargeDocument\<close> tests \<^verbatim>\<open>entry.value\<close> for
  truthiness, so a listed segment that holds the empty string counts as missing: here every
  listed segment key has a value and the concatenation of the segment strings decodes, and
  \<^verbatim>\<open>find\<close> raises \<^verbatim>\<open>CorruptedDocumentDataError\<close> all the same.
\<close>

theorem find_empty_segment_counterexample:
  "entries store1 (docK lc0 (VStr ''b'')) = Some (largeDocumentEntry [VNum 0, VNum 1], 3)
   \<and> entries store1 (segIdK lc0 (VStr ''b'') (VNum 0)) = Some (VStr [], 1)
   \<and> entries store1 (segIdK lc0 (VStr ''b'') (VNum 1)) = Some (VStr ''[a]'', 2)
   \<and> JSON_parse pf0 ([] @ ''[a]'') = Some ''a''
   \<and> fst (LargeCollection_find pf0 lc0 (VStr ''b'') store1) = Inl CorruptedDocumentDataError"
  by (simp add: eval_defs store1_def)

text \<open>
  C5, with an empty segment counted as missing. When no entry is stored at the id key,
  \<^verbatim>\<open>find\<close> returns \<^verbatim>\<open>null\<close>. \<^verbatim>\<open>find\<close> raises \<^verbatim>\<open>CorruptedDocumentDataError\<close> only
  when a manifest is stored at the id key. With a manifest stored and each listed segment
  key absent or holding a string, it raises the error exactly when some listed segment key
  has no value or holds the empty string, or the concatenation of the segment strings in
  manifest order does not decode.
\<close>

theorem find_corrupted:
  "(entries s (docK lc d) = None \<longrightarrow> fst (LargeCollection_find pf lc d s) = Inr None)
   \<and> (fst (LargeCollection_find pf lc d s) = Inl CorruptedDocumentDataError \<longrightarrow>
        (\<exists>v vs ids. entries s (docK lc d) = Some (v, vs) \<and> entry_ids v = Some ids))
   \<and> (\<forall>v vs ids.
        entries s (docK lc d) = Some (v, vs) \<and> entry_ids v = Some ids
        \<and> (\<forall>segId\<in>set ids. entries s (segIdK lc d segId) = None
              \<or> (\<exists>str vs'. entries s (segIdK lc d segId) = Some (VStr str, vs')))
        \<longrightarrow>
          (fst (LargeCollection_find pf lc d s) = Inl CorruptedDocumentDataError) =
            ((\<exists>segId\<in>set ids. entries s (segIdK lc d segId) = None
                \<or> (\<exists>vs'. entries s (segIdK lc d segId) = Some (VStr [], vs')))
             \<or> JSON_parse pf (concat (map (\<lambda>segId. segment_text s (segIdK lc d segId)) ids))
                 = None))"
proof (intro conjI allI impI)
  assume "entries s (docK lc d) = None"
  then show "fst (LargeCollection_find pf lc d s) = Inr None" by (simp add: find_unfold)
next
  assume c: "fst (LargeCollection_find pf lc d s) = Inl CorruptedDocumentDataError"
  show "\<exists>v vs ids. entries s (docK lc d) = Some (v, vs) \<and> entry_ids v = Some ids"
  proof (cases "entries s (docK lc d)")
    case None
    then show ?thesis using c by (simp add: find_unfold)
  next
    case (Some e)
    obtain v vs where e: "e = (v, vs)" by (cases e)
    show ?thesis
    proof (cases "entry_ids v")
      case None
      then show ?thesis using c Some e
        by (simp add: find_unfold construct_unfold split: if_splits)
    next
      case (Some ids)
      then show ?thesis using \<open>entries s (docK lc d) = Some e\<close> e by simp
    qed
  qed
next
  fix v vs ids
  assume h: "entries s (docK lc d) = Some (v, vs) \<and> entry_ids v = Some ids
      \<and> (\<forall>segId\<in>set ids. entries s (segIdK lc d segId) = None
            \<or> (\<exists>str vs'. entries s (segIdK lc d segId) = Some (VStr str, vs')))"
  define vals where "vals = map (\<lambda>segId. seg_value s (segIdK lc d segId)) ids"
  define bad where "bad \<longleftrightarrow> (\<exists>segId\<in>set ids. entries s (segIdK lc d segId) = None
      \<or> (\<exists>vs'. entries s (segIdK lc d segId) = Some (VStr [], vs')))"
  have nn: "v \<noteq> VNull" using h by (cases v) auto
  have each: "\<And>segId. segId \<in> set ids \<Longrightarrow>
      truthy (seg_value s (segIdK lc d segId)) =
        (\<not> (entries s (segIdK lc d segId) = None
            \<or> (\<exists>vs'. entries s (segIdK lc d segId) = Some (VStr [], vs'))))"
    using h by (fastforce simp: seg_value_def)
  have tr: "list_all truthy vals = (\<not> bad)"
    using each by (auto simp: vals_def bad_def list_all_iff)
  have strs: "\<not> bad \<Longrightarrow> vals = map VStr (map (\<lambda>segId. segment_text s (segIdK lc d segId)) ids)"
  proof -
    assume nb: "\<not> bad"
    have "\<And>segId. segId \<in> set ids \<Longrightarrow>
        seg_value s (segIdK lc d segId) = VStr (segment_text s (segIdK lc d segId))"
      using h nb by (fastforce simp: seg_value_def segment_text_def bad_def)
    then show ?thesis by (simp add: vals_def)
  qed
  have f: "fst (LargeCollection_find pf lc d s) =
      (if \<not> list_all truthy vals then Inl CorruptedDocumentDataError
       else (case JSON_parse pf (join_parts vals) of
               None \<Rightarrow> Inl CorruptedDocumentDataError
             | Some x \<Rightarrow> Inr (Some \<lparr>doc_id = d, doc_value = x, doc_versionstamp = vs\<rparr>)))"
    using h nn by (simp add: find_unfold construct_unfold vals_def split: option.splits)
  show "(fst (LargeCollection_find pf lc d s) = Inl CorruptedDocumentDataError) =
      ((\<exists>segId\<in>set ids. entries s (segIdK lc d segId) = None
          \<or> (\<exists>vs'. entries s (segIdK lc d segId) = Some (VStr [], vs')))
       \<or> JSON_parse pf (concat (map (\<lambda>segId. segment_text s (segIdK lc d segId)) ids)) = None)"
  proof (cases bad)
    case True
    then show ?thesis using f tr by (simp add: bad_def)
  next
    case False
    have "join_parts vals = concat (map (\<lambda>segId. segment_text s (segIdK lc d segId)) ids)"
      unfolding strs [OF False] by (rule join_parts_strings)
    then show ?thesis
      using f tr False by (simp add: bad_def [symmetric] split: option.splits)
  qed
qed

theorem find_corrupted_witness:
  "entries empty_store (docK lc0 (VStr ''a'')) = None
   \<and> fst (LargeCollection_find pf0 lc0 (VStr ''a'') empty_store) = Inr None
   \<and> entries store0 (docK lc0 (VStr ''a'')) =
       Some (largeDocumentEntry [VNum 0, VNum 1, VNum 2], 7)
   \<and> entry_ids (largeDocumentEntry [VNum 0, VNum 1, VNum 2]) = Some [VNum 0, VNum 1, VNum 2]
   \<and> entries store0 (segIdK lc0 (VStr ''a'') (VNum 0)) = Some (VStr ''[x'', 4)
   \<and> entries store0 (segIdK lc0 (VStr ''a'') (VNum 1)) = Some (VStr ''yz'', 5)
   \<and> entries store0 (segIdK lc0 (VStr ''a'') (VNum 2)) = Some (VStr '']'', 6)
   \<and> JSON_parse pf0 (concat (map (\<lambda>segId. segment_text store0 (segIdK lc0 (VStr ''a'') segId))
        [VNum 0, VNum 1, VNum 2])) = Some ''xyz''
   \<and> fst (LargeCollection_find pf0 lc0 (VStr ''a'') store0) \<noteq> Inl CorruptedDocumentDataError
   \<and> entries store1 (docK lc0 (VStr ''b'')) = Some (largeDocumentEntry [VNum 0, VNum 1], 3)
   \<and> entries store1 (segIdK lc0 (VStr ''b'') (VNum 0)) = Some (VStr [], 1)
   \<and> entries store1 (segIdK lc0 (VStr ''b'') (VNum 1)) = Some (VStr ''[a]'', 2)
   \<and> fst (LargeCollection_find pf0 lc0 (VStr ''b'') store1) = Inl CorruptedDocumentDataError"
proof -
  have a: "entries empty_store (docK lc0 (VStr ''a'')) = None" by (simp add: empty_store_def)
  have b: "entries store0 (docK lc0 (VStr ''a'')) =
       Some (largeDocumentEntry [VNum 0, VNum 1, VNum 2], 7)"
    by (simp add: eval_defs store0_def)
  have c: "entry_ids (largeDocumentEntry [VNum 0, VNum 1, VNum 2]) = Some [VNum 0, VNum 1, VNum 2]"
    by simp
  have s0: "entries store0 (segIdK lc0 (VStr ''a'') (VNum 0)) = Some (VStr ''[x'', 4)"
    and s1: "entries store0 (segIdK lc0 (VStr ''a'') (VNum 1)) = Some (VStr ''yz'', 5)"
    and s2: "entries store0 (segIdK lc0 (VStr ''a'') (VNum 2)) = Some (VStr '']'', 6)"
    by (simp_all add: eval_defs store0_def)
  have j: "JSON_parse pf0 (concat (map (\<lambda>segId. segment_text store0 (segIdK lc0 (VStr ''a'') segId))
        [VNum 0, VNum 1, VNum 2])) = Some ''xyz''"
    by (simp add: segment_text_def s0 s1 s2 pf0_def bracket_parse_def)
  have t0: "\<forall>segId\<in>set [VNum 0, VNum 1, VNum 2].
      entries store0 (segIdK lc0 (VStr ''a'') segId) = None
      \<or> (\<exists>str vs'. entries store0 (segIdK lc0 (VStr ''a'') segId) = Some (VStr str, vs'))"
    using s0 s1 s2 by simp
  have n0: "\<not> (\<exists>segId\<in>set [VNum 0, VNum 1, VNum 2].
      entries store0 (segIdK lc0 (VStr ''a'') segId) = None
      \<or> (\<exists>vs'. entries store0 (segIdK lc0 (VStr ''a'') segId) = Some (VStr [], vs')))"
    using s0 s1 s2 by simp
  have b1: "entries store1 (docK lc0 (VStr ''b'')) = Some (largeDocumentEntry [VNum 0, VNum 1], 3)"
    and u0: "entries store1 (segIdK lc0 (VStr ''b'') (VNum 0)) = Some (VStr [], 1)"
    and u1: "entries store1 (segIdK lc0 (VStr ''b'') (VNum 1)) = Some (VStr ''[a]'', 2)"
    by (simp_all add: eval_defs store1_def)
  have c1: "entry_ids (largeDocumentEntry [VNum 0, VNum 1]) = Some [VNum 0, VNum 1]" by simp
  have t1: "\<forall>segId\<in>set [VNum 0, VNum 1].
      entries store1 (segIdK lc0 (VStr ''b'') segId) = None
      \<or> (\<exists>str vs'. entries store1 (segIdK lc0 (VStr ''b'') segId) = Some (VStr str, vs'))"
    using u0 u1 by simp
  have e1: "\<exists>segId\<in>set [VNum 0, VNum 1].
      entries store1 (segIdK lc0 (VStr ''b'') segId) = None
      \<or> (\<exists>vs'. entries store1 (segIdK lc0 (VStr ''b'') segId) = Some (VStr [], vs'))"
    using u0 by simp
  note w0 = find_corrupted [where s = empty_store and lc = lc0 and d = "VStr ''a''" and pf = pf0]
  note w1 = find_corrupted [where s = store0 and lc = lc0 and d = "VStr ''a''" and pf = pf0]
  note w2 = find_corrupted [where s = store1 and lc = lc0 and d = "VStr ''b''" and pf = pf0]
  have r0: "fst (LargeCollection_find pf0 lc0 (VStr ''a'') empty_store) = Inr None"
    using w0 a by blast
  have r1: "fst (LargeCollection_find pf0 lc0 (VStr ''a'') store0) \<noteq> Inl CorruptedDocumentDataError"
    using w1 b c t0 n0 j by (metis option.distinct(1))
  have r2: "fst (LargeCollection_find pf0 lc0 (VStr ''b'') store1) = Inl CorruptedDocumentDataError"
    using w2 b1 c1 t1 e1 by blast
  show ?thesis using a r0 b c s0 s1 s2 j r1 b1 u0 u1 r2 by simp
qed

section \<open>setDocument on an id that is taken\<close>

lemma probe_fails:
  "entries s k \<noteq> None \<Longrightarrow>
     atomic_commit (op_check [Check k None] atomic) s = (KvCommitError, probe_failed k s)"
  by (auto simp: atomic_commit_def op_check_def atomic_def probe_failed_def)

lemma attempt_rejected:
  assumes "l_model_parse lc val = Some p" and "entries s (docK lc (docId_of lc ident p)) \<noteq> None"
  shows "attempt pf lc ident val False s
     = Finished CommitError (probe_failed (docK lc (docId_of lc ident p)) s)"
  using assms probe_fails [OF assms(2)]
  unfolding attempt_def docId_of_def docK_def Let_def by simp

lemma attempt_overwrite:
  assumes "l_model_parse lc val = Some p"
    and "entries s (docK lc (docId_of lc ident p)) = Some (largeDocumentEntry ids, vs0)"
  shows "attempt pf lc ident val True s
     = write_attempt pf lc (docId_of lc ident p) p
         (delete_progress pf lc (docId_of lc ident p) ids
            (probe_failed (docK lc (docId_of lc ident p)) s)
            (length (slices (ATOMIC_OPERATION_MUTATION_LIMIT pf) ids)))"
proof -
  define d where "d = docId_of lc ident p"
  have ne: "entries s (docK lc d) \<noteq> None" using assms(2) by (simp add: d_def)
  have e1: "entries (probe_failed (docK lc d) s) (docK lc d) = Some (largeDocumentEntry ids, vs0)"
    using assms(2) by (simp add: probe_failed_def d_def)
  have "attempt pf lc ident val True s =
      (case LargeCollection_delete pf lc d (probe_failed (docK lc d) s) of
         (Inl e, s2) \<Rightarrow> Thrown e s2
       | (Inr u, s2) \<Rightarrow> write_attempt pf lc d p s2)"
    using assms(1) probe_fails [OF ne]
    unfolding attempt_def d_def docId_of_def docK_def Let_def
    by (simp split: prod.splits sum.splits)
  then have "attempt pf lc ident val True s = write_attempt pf lc d p
      (delete_progress pf lc d ids (probe_failed (docK lc d) s)
         (length (slices (ATOMIC_OPERATION_MUTATION_LIMIT pf) ids)))"
    by (simp add: delete_manifest [OF e1])
  then show ?thesis by (simp add: d_def)
qed

text \<open>
  C6. When the id key already holds an entry, the probe is not ok. With \<^verbatim>\<open>overwrite\<close>
  false, \<^verbatim>\<open>setDocument\<close> returns \<open>{ok: false}\<close> and the only request made is the probe:
  no segment and no manifest is written. With \<^verbatim>\<open>overwrite\<close> true and a manifest stored,
  it runs \<^verbatim>\<open>delete\<close> of the id first: the requests after the probe are the read, the delete
  of the manifest key and the batches of segment deletes; in the state they leave the id key
  is empty and no entry has been added or changed (and every listed segment is gone when the
  store refuses no commit); the writes of the new document start from that state, and all
  their requests come after these.
\<close>

theorem setDocument_existing_id:
  assumes "0 < LARGE_COLLECTION_STRING_LIMIT pf" and "same_length_keys lc"
    and "l_model_parse lc val = Some p" and "d = docId_of lc ident p"
  shows "(entries s (docK lc d) \<noteq> None \<longrightarrow>
           LargeCollection_setDocument pf lc ident val options False s
             = Some (Inr CommitError, probe_failed (docK lc d) s)
           \<and> entries (probe_failed (docK lc d) s) = entries s)
     \<and> (\<forall>ids vs0. entries s (docK lc d) = Some (largeDocumentEntry ids, vs0) \<longrightarrow>
          (let s2 = delete_progress pf lc d ids (probe_failed (docK lc d) s)
                      (length (slices (ATOMIC_OPERATION_MUTATION_LIMIT pf) ids))
           in attempt pf lc ident val True s = write_attempt pf lc d p s2
              \<and> (\<exists>crs. length crs = length (slices (ATOMIC_OPERATION_MUTATION_LIMIT pf) ids)
                    \<and> trace s2 =
                       trace s @ [ECommit [Check (docK lc d) None] [] False,
                                  EGet (docK lc d), EDelete (docK lc d)]
                         @ map2 (\<lambda>b cr. ECommit [] (seg_deletes lc d b) (ok cr))
                             (slices (ATOMIC_OPERATION_MUTATION_LIMIT pf) ids) crs)
              \<and> entries s2 (docK lc d) = None
              \<and> (\<forall>k. entries s2 k = None \<or> entries s2 k = entries s k)
              \<and> (0 < ATOMIC_OPERATION_MUTATION_LIMIT pf \<and> True \<notin> set (tl (faults s)) \<longrightarrow>
                   (\<forall>segId\<in>set ids. entries s2 (segIdK lc d segId) = None))
              \<and> (\<exists>res s' evs.
                    LargeCollection_setDocument pf lc ident val options True s = Some (res, s')
                    \<and> trace s' = trace s2 @ evs)))"
proof (intro conjI allI impI)
  assume ne: "entries s (docK lc d) \<noteq> None"
  then show "LargeCollection_setDocument pf lc ident val options False s
      = Some (Inr CommitError, probe_failed (docK lc d) s)"
    using attempt_rejected [OF assms(3), of s ident pf] assms(4)
    by (simp add: setDocument_unfold)
  show "entries (probe_failed (docK lc d) s) = entries s" by (simp add: probe_failed_def)
next
  fix ids vs0
  assume m: "entries s (docK lc d) = Some (largeDocumentEntry ids, vs0)"
  define s1 where "s1 = probe_failed (docK lc d) s"
  define s2 where "s2 = delete_progress pf lc d ids s1
      (length (slices (ATOMIC_OPERATION_MUTATION_LIMIT pf) ids))"
  have e1: "entries s1 = entries s" and t1: "trace s1 = trace s @ [ECommit [Check (docK lc d) None] [] False]"
    and f1: "faults s1 = tl (faults s)"
    by (simp_all add: s1_def probe_failed_def)
  have att: "attempt pf lc ident val True s = write_attempt pf lc d p s2"
    using attempt_overwrite [OF assms(3), of s ident ids vs0 pf] m assms(4)
    by (simp add: s2_def s1_def)
  have tr: "\<exists>crs. length crs = length (slices (ATOMIC_OPERATION_MUTATION_LIMIT pf) ids)
      \<and> trace s2 =
         trace s @ [ECommit [Check (docK lc d) None] [] False,
                    EGet (docK lc d), EDelete (docK lc d)]
           @ map2 (\<lambda>b cr. ECommit [] (seg_deletes lc d b) (ok cr))
               (slices (ATOMIC_OPERATION_MUTATION_LIMIT pf) ids) crs"
    using delete_progress_trace [of pf ids lc d s1] by (simp add: s2_def t1)
  have en: "entries s2 (docK lc d) = None"
    and sh: "\<forall>k. entries s2 k = None \<or> entries s2 k = entries s k"
    using delete_progress_entries [OF assms(2), of pf d ids s1] by (simp_all add: s2_def e1)
  have sg: "0 < ATOMIC_OPERATION_MUTATION_LIMIT pf \<and> True \<notin> set (tl (faults s)) \<longrightarrow>
      (\<forall>segId\<in>set ids. entries s2 (segIdK lc d segId) = None)"
    using delete_progress_segments [of pf s1 _ ids lc d] by (simp add: s2_def f1)
  have run: "\<exists>res s' evs.
      LargeCollection_setDocument pf lc ident val options True s = Some (res, s')
      \<and> trace s' = trace s2 @ evs"
  proof (cases rule: write_attempt_cases [OF assms(1,2), where d = d and p = p and ?s2.0 = s2])
    case (1 sa)
    from 1(3) obtain evs where ta: "trace sa = trace s2 @ evs" by blast
    show ?thesis
    proof (cases "retry_of options > 0")
      case False
      then have "LargeCollection_setDocument pf lc ident val options True s
          = Some (Inr CommitError, sa)"
        using att 1(1) by (simp add: setDocument_unfold)
      then show ?thesis using ta by blast
    next
      case True
      then have r: "LargeCollection_setDocument pf lc ident val options True s
          = LargeCollection_setDocument pf lc (Some d) p
              (with_retry options (retry_of options - 1)) True sa"
        using att 1(1) by (simp add: setDocument_unfold)
      from setDocument_run [OF assms(1,2), of "Some d" p
          "with_retry options (retry_of options - 1)" True sa]
      obtain res s' evs' where
        "LargeCollection_setDocument pf lc (Some d) p
           (with_retry options (retry_of options - 1)) True sa = Some (res, s')"
        and "trace s' = trace sa @ evs'" by blast
      then have "LargeCollection_setDocument pf lc ident val options True s = Some (res, s')
          \<and> trace s' = trace s2 @ (evs @ evs')"
        using r ta by simp
      then show ?thesis by blast
    qed
  next
    case (2 vs sa)
    from 2(4) obtain evs where ta: "trace sa = trace s2 @ evs" by blast
    have "LargeCollection_setDocument pf lc ident val options True s
        = Some (Inr (CommitResult d vs), sa)"
      using att 2(1) by (simp add: setDocument_unfold)
    then show ?thesis using ta by blast
  qed
  show "let s2 = delete_progress pf lc d ids (probe_failed (docK lc d) s)
                   (length (slices (ATOMIC_OPERATION_MUTATION_LIMIT pf) ids))
        in attempt pf lc ident val True s = write_attempt pf lc d p s2
           \<and> (\<exists>crs. length crs = length (slices (ATOMIC_OPERATION_MUTATION_LIMIT pf) ids)
                 \<and> trace s2 =
                    trace s @ [ECommit [Check (docK lc d) None] [] False,
                               EGet (docK lc d), EDelete (docK lc d)]
                      @ map2 (\<lambda>b cr. ECommit [] (seg_deletes lc d b) (ok cr))
                          (slices (ATOMIC_OPERATION_MUTATION_LIMIT pf) ids) crs)
           \<and> entries s2 (docK lc d) = None
           \<and> (\<forall>k. entries s2 k = None \<or> entries s2 k = entries s k)
           \<and> (0 < ATOMIC_OPERATION_MUTATION_LIMIT pf \<and> True \<notin> set (tl (faults s)) \<longrightarrow>
                (\<forall>segId\<in>set ids. entries s2 (segIdK lc d segId) = None))
           \<and> (\<exists>res s' evs.
                 LargeCollection_setDocument pf lc ident val options True s = Some (res, s')
                 \<and> trace s' = trace s2 @ evs)"
    unfolding Let_def s1_def [symmetric] s2_def [symmetric]
    using att tr en sh sg run by blast
qed

theorem setDocument_existing_id_witness:
  "0 < LARGE_COLLECTION_STRING_LIMIT pf0 \<and> same_length_keys lc0
   \<and> l_model_parse lc0 ''q'' = Some ''q''
   \<and> VStr ''a'' = docId_of lc0 (Some (VStr ''a'')) ''q''
   \<and> entries store0 (docK lc0 (VStr ''a'')) =
       Some (largeDocumentEntry [VNum 0, VNum 1, VNum 2], 7)
   \<and> LargeCollection_setDocument pf0 lc0 (Some (VStr ''a'')) ''q'' None False store0
       = Some (Inr CommitError, probe_failed (docK lc0 (VStr ''a'')) store0)
   \<and> entries (probe_failed (docK lc0 (VStr ''a'')) store0) = entries store0
   \<and> attempt pf0 lc0 (Some (VStr ''a'')) ''q'' True store0 =
       write_attempt pf0 lc0 (VStr ''a'') ''q''
         (delete_progress pf0 lc0 (VStr ''a'') [VNum 0, VNum 1, VNum 2]
            (probe_failed (docK lc0 (VStr ''a'')) store0)
            (length (slices (ATOMIC_OPERATION_MUTATION_LIMIT pf0) [VNum 0, VNum 1, VNum 2])))
   \<and> entries (delete_progress pf0 lc0 (VStr ''a'') [VNum 0, VNum 1, VNum 2]
            (probe_failed (docK lc0 (VStr ''a'')) store0)
            (length (slices (ATOMIC_OPERATION_MUTATION_LIMIT pf0) [VNum 0, VNum 1, VNum 2])))
        (docK lc0 (VStr ''a'')) = None
   \<and> entries (delete_progress pf0 lc0 (VStr ''a'') [VNum 0, VNum 1, VNum 2]
            (probe_failed (docK lc0 (VStr ''a'')) store0)
            (length (slices (ATOMIC_OPERATION_MUTATION_LIMIT pf0) [VNum 0, VNum 1, VNum 2])))
        (segIdK lc0 (VStr ''a'') (VNum 2)) = None
   \<and> LargeCollection_setDocument pf0 lc0 (Some (VStr ''a'')) ''q'' None True store0
       = Some (Inr (CommitResult (VStr ''a'') 11), after_overwrite)
   \<and> entries after_overwrite (segIdK lc0 (VStr ''a'') (VNum 2)) = None
   \<and> fst (LargeCollection_find pf0 lc0 (VStr ''a'') after_overwrite)
       = Inr (Some \<lparr>doc_id = VStr ''a'', doc_value = ''q'', doc_versionstamp = 11\<rparr>)"
proof -
  have a: "0 < LARGE_COLLECTION_STRING_LIMIT pf0" by (simp add: pf0_def)
  have b: "same_length_keys lc0" by (simp add: lc0_def)
  have c: "l_model_parse lc0 ''q'' = Some ''q''" by (simp add: lc0_def newLargeCollection_def)
  have d: "VStr ''a'' = docId_of lc0 (Some (VStr ''a'')) ''q''" by (simp add: docId_of_def)
  have e: "entries store0 (docK lc0 (VStr ''a'')) =
       Some (largeDocumentEntry [VNum 0, VNum 1, VNum 2], 7)"
    by (simp add: eval_defs store0_def)
  have f: "0 < ATOMIC_OPERATION_MUTATION_LIMIT pf0 \<and> True \<notin> set (tl (faults store0))"
    by (simp add: pf0_def store0_def)
  have g: "VNum 2 \<in> set [VNum 0, VNum 1, VNum 2]" by simp
  have h: "LargeCollection_setDocument pf0 lc0 (Some (VStr ''a'')) ''q'' None True store0
       = Some (Inr (CommitResult (VStr ''a'') 11), after_overwrite)"
    unfolding after_overwrite_def by (simp add: eval_defs store0_def)
  have i: "entries after_overwrite (segIdK lc0 (VStr ''a'') (VNum 2)) = None"
    unfolding after_overwrite_def by (simp add: eval_defs store0_def)
  have j: "fst (LargeCollection_find pf0 lc0 (VStr ''a'') after_overwrite)
       = Inr (Some \<lparr>doc_id = VStr ''a'', doc_value = ''q'', doc_versionstamp = 11\<rparr>)"
    unfolding after_overwrite_def by (simp add: eval_defs store0_def)
  note t = setDocument_existing_id [OF a b c d, where s = store0 and options = None,
      unfolded Let_def]
  have e': "entries store0 (docK lc0 (VStr ''a'')) \<noteq> None" using e by simp
  show ?thesis using a b c d e e' f g h i j t by blast
qed

section \<open>Builders as sequences of calls: overlap of adds and deletes\<close>

lemma AtomicBuilder_add_eq_set: "AtomicBuilder_add b ident data = AtomicBuilder_set b ident data"
  by (simp add: AtomicBuilder_add_def AtomicBuilder_set_def)

lemma pushAtomicFns_simps [simp]:
  "indexAddCollectionKeys (pushAtomicFns fns ops) = indexAddCollectionKeys ops"
  "indexDeleteCollectionKeys (pushAtomicFns fns ops) = indexDeleteCollectionKeys ops"
  "prepareDeleteFns (pushAtomicFns fns ops) = prepareDeleteFns ops"
  "atomicFns (pushAtomicFns fns ops) = atomicFns ops @ fns"
  by (simp_all add: pushAtomicFns_def)

lemma mutateEach_add_mono:
  "set (indexAddCollectionKeys ops) \<subseteq> set (indexAddCollectionKeys (mutateEach c ops m))"
  by (cases m) (auto simp: Let_def split: option.splits)

lemma mutateEach_delete_mono:
  "set (indexDeleteCollectionKeys ops) \<subseteq> set (indexDeleteCollectionKeys (mutateEach c ops m))"
  by (cases m) (auto simp: Let_def split: option.splits)

lemma foldl_mutateEach_add_mono:
  "set (indexAddCollectionKeys ops)
     \<subseteq> set (indexAddCollectionKeys (foldl (mutateEach c) ops ms))"
proof (induction ms arbitrary: ops)
  case Nil
  then show ?case by simp
next
  case (Cons m ms)
  then show ?case using mutateEach_add_mono [of ops c m] by fastforce
qed

lemma foldl_mutateEach_delete_mono:
  "set (indexDeleteCollectionKeys ops)
     \<subseteq> set (indexDeleteCollectionKeys (foldl (mutateEach c) ops ms))"
proof (induction ms arbitrary: ops)
  case Nil
  then show ?case by simp
next
  case (Cons m ms)
  then show ?case using mutateEach_delete_mono [of ops c m] by fastforce
qed

lemma getDocumentId_extendKey [simp]: "getDocumentId (extendKey k [ident]) = Some ident"
  by (simp add: getDocumentId_def extendKey_def)

lemma foldl_mutateEach_add_mark:
  assumes "indexable c = Some ix" and "MSet (extendKey k [ident]) v \<in> set ms"
  shows "collectionIdKey c \<in> set (indexAddCollectionKeys (foldl (mutateEach c) ops ms))"
  using assms(2)
proof (induction ms arbitrary: ops)
  case Nil
  then show ?case by simp
next
  case (Cons m ms)
  show ?case
  proof (cases "m = MSet (extendKey k [ident]) v")
    case True
    have "collectionIdKey c \<in> set (indexAddCollectionKeys (mutateEach c ops m))"
      using assms(1) True by (simp add: Let_def)
    then show ?thesis
      using foldl_mutateEach_add_mono [of "mutateEach c ops m" c ms] by auto
  next
    case False
    then show ?thesis using Cons by simp
  qed
qed

lemma foldl_mutateEach_delete_mark:
  assumes "indexable c = Some ix" and "MDelete (extendKey k [ident]) \<in> set ms"
  shows "collectionIdKey c \<in> set (indexDeleteCollectionKeys (foldl (mutateEach c) ops ms))"
  using assms(2)
proof (induction ms arbitrary: ops)
  case Nil
  then show ?case by simp
next
  case (Cons m ms)
  show ?case
  proof (cases "m = MDelete (extendKey k [ident])")
    case True
    have "collectionIdKey c \<in> set (indexDeleteCollectionKeys (mutateEach c ops m))"
      using assms(1) True by simp
    then show ?thesis
      using foldl_mutateEach_delete_mono [of "mutateEach c ops m" c ms] by auto
  next
    case False
    then show ?thesis using Cons by simp
  qed
qed

lemma apply_call_add_mono:
  "set (indexAddCollectionKeys (operations b))
     \<subseteq> set (indexAddCollectionKeys (operations (apply_call b call)))"
proof (cases call)
  case (CallMutate ms)
  have "set (indexAddCollectionKeys
        (pushAtomicFns [\<lambda>op. op_mutate (map (kvMutation (collectionIdKey (collection b))) ms) op]
           (operations b)))
      \<subseteq> set (indexAddCollectionKeys (foldl (mutateEach (collection b))
        (pushAtomicFns [\<lambda>op. op_mutate (map (kvMutation (collectionIdKey (collection b))) ms) op]
           (operations b))
        (map (kvMutation (collectionIdKey (collection b))) ms)))"
    by (rule foldl_mutateEach_add_mono)
  then show ?thesis using CallMutate by (simp add: AtomicBuilder_mutate_def Let_def)
qed (auto simp: AtomicBuilder_select_def AtomicBuilder_add_def AtomicBuilder_set_def
    AtomicBuilder_delete_def AtomicBuilder_check_def AtomicBuilder_sum_def
    Let_def split: option.splits)

lemma apply_call_delete_mono:
  "set (indexDeleteCollectionKeys (operations b))
     \<subseteq> set (indexDeleteCollectionKeys (operations (apply_call b call)))"
proof (cases call)
  case (CallMutate ms)
  have "set (indexDeleteCollectionKeys
        (pushAtomicFns [\<lambda>op. op_mutate (map (kvMutation (collectionIdKey (collection b))) ms) op]
           (operations b)))
      \<subseteq> set (indexDeleteCollectionKeys (foldl (mutateEach (collection b))
        (pushAtomicFns [\<lambda>op. op_mutate (map (kvMutation (collectionIdKey (collection b))) ms) op]
           (operations b))
        (map (kvMutation (collectionIdKey (collection b))) ms)))"
    by (rule foldl_mutateEach_delete_mono)
  then show ?thesis using CallMutate by (simp add: AtomicBuilder_mutate_def Let_def)
qed (auto simp: AtomicBuilder_select_def AtomicBuilder_add_def AtomicBuilder_set_def
    AtomicBuilder_delete_def AtomicBuilder_check_def AtomicBuilder_sum_def
    Let_def split: option.splits)

lemma run_calls_add_mono:
  "set (indexAddCollectionKeys (operations b))
     \<subseteq> set (indexAddCollectionKeys (operations (run_calls b calls)))"
  unfolding run_calls_def
proof (induction calls arbitrary: b)
  case Nil
  then show ?case by simp
next
  case (Cons call calls)
  then show ?case using apply_call_add_mono [of b call] by fastforce
qed

lemma run_calls_delete_mono:
  "set (indexDeleteCollectionKeys (operations b))
     \<subseteq> set (indexDeleteCollectionKeys (operations (run_calls b calls)))"
  unfolding run_calls_def
proof (induction calls arbitrary: b)
  case Nil
  then show ?case by simp
next
  case (Cons call calls)
  then show ?case using apply_call_delete_mono [of b call] by fastforce
qed

lemma apply_call_add_mark:
  assumes "indexable (collection b) \<noteq> None" and "adds_index call"
  shows "collectionIdKey (collection b)
     \<in> set (indexAddCollectionKeys (operations (apply_call b call)))"
proof -
  obtain ix where ix: "indexable (collection b) = Some ix" using assms(1) by auto
  show ?thesis
  proof (cases call)
    case (CallMutate ms)
    then obtain m where m: "m \<in> set ms" "is_set_mutation m"
      using assms(2) by (auto simp: list_ex_iff)
    obtain ident v where mv: "m = AMSet ident v" using m(2) by (cases m) auto
    have "MSet (extendKey (collectionIdKey (collection b)) [ident]) v
        \<in> set (map (kvMutation (collectionIdKey (collection b))) ms)"
      using m(1) mv by force
    from foldl_mutateEach_add_mark [OF ix this]
    show ?thesis using CallMutate by (simp add: AtomicBuilder_mutate_def Let_def)
  qed (use assms(2) ix in \<open>auto simp: AtomicBuilder_add_def AtomicBuilder_set_def Let_def\<close>)
qed

lemma apply_call_delete_mark:
  assumes "indexable (collection b) \<noteq> None" and "deletes_index call"
  shows "collectionIdKey (collection b)
     \<in> set (indexDeleteCollectionKeys (operations (apply_call b call)))"
proof -
  obtain ix where ix: "indexable (collection b) = Some ix" using assms(1) by auto
  show ?thesis
  proof (cases call)
    case (CallMutate ms)
    then obtain m where m: "m \<in> set ms" "is_delete_mutation m"
      using assms(2) by (auto simp: list_ex_iff)
    obtain ident where mv: "m = AMDelete ident" using m(2) by (cases m) auto
    have "MDelete (extendKey (collectionIdKey (collection b)) [ident])
        \<in> set (map (kvMutation (collectionIdKey (collection b))) ms)"
      using m(1) mv by force
    from foldl_mutateEach_delete_mark [OF ix this]
    show ?thesis using CallMutate by (simp add: AtomicBuilder_mutate_def Let_def)
  qed (use assms(2) ix in \<open>auto simp: AtomicBuilder_delete_def Let_def\<close>)
qed

lemma run_calls_split:
  "i < length calls \<Longrightarrow>
     run_calls b calls
       = run_calls (apply_call (run_calls b (take i calls)) (calls ! i)) (drop (Suc i) calls)"
proof -
  assume i: "i < length calls"
  then have "calls = take i calls @ calls ! i # drop (Suc i) calls"
    by (simp add: id_take_nth_drop)
  then have "run_calls b calls
      = run_calls b (take i calls @ calls ! i # drop (Suc i) calls)" by simp
  then show ?thesis by (simp only: run_calls_def foldl_append foldl_Cons)
qed

lemma commit_overlap:
  assumes "ka \<in> set (indexAddCollectionKeys (operations b))"
    and "kd \<in> set (indexDeleteCollectionKeys (operations b))" and "keyEq ka kd"
  shows "AtomicBuilder_commit b s = (KvCommitError, s)"
proof -
  have "list_ex (\<lambda>addKey. list_ex (\<lambda>deleteKey. keyEq addKey deleteKey)
      (indexDeleteCollectionKeys (operations b))) (indexAddCollectionKeys (operations b))"
    using assms by (auto simp: list_ex_iff)
  then show ?thesis by (simp add: AtomicBuilder_commit_def)
qed

text \<open>
  C3. A builder made by a sequence of calls of which one adds index entries (\<^verbatim>\<open>add\<close>,
  \<^verbatim>\<open>set\<close>, or \<^verbatim>\<open>mutate\<close> with a mutation of type set) and one deletes index entries
  (\<^verbatim>\<open>delete\<close>, or \<^verbatim>\<open>mutate\<close> with a mutation of type delete), in either order, each made
  while an indexable collection is selected, the two collections having equal collection
  keys: \<^verbatim>\<open>commit\<close> returns \<open>{ok: false}\<close> and the store is as before, with no request made
  (no read of a prepare closure and no batch in the trace, no entry of the failure schedule
  used).
\<close>

theorem commit_rejects_overlap:
  assumes "i < length calls" and "adds_index (calls ! i)"
    and "indexable (collection (run_calls b0 (take i calls))) \<noteq> None"
    and "j < length calls" and "deletes_index (calls ! j)"
    and "indexable (collection (run_calls b0 (take j calls))) \<noteq> None"
    and "keyEq (collectionIdKey (collection (run_calls b0 (take i calls))))
           (collectionIdKey (collection (run_calls b0 (take j calls))))"
  shows "AtomicBuilder_commit (run_calls b0 calls) s = (KvCommitError, s)"
proof -
  define ka where "ka = collectionIdKey (collection (run_calls b0 (take i calls)))"
  define kd where "kd = collectionIdKey (collection (run_calls b0 (take j calls)))"
  have "ka \<in> set (indexAddCollectionKeys (operations
      (apply_call (run_calls b0 (take i calls)) (calls ! i))))"
    unfolding ka_def by (rule apply_call_add_mark [OF assms(3,2)])
  then have a: "ka \<in> set (indexAddCollectionKeys (operations (run_calls b0 calls)))"
    using run_calls_add_mono run_calls_split [OF assms(1), of b0] by (metis subsetD)
  have "kd \<in> set (indexDeleteCollectionKeys (operations
      (apply_call (run_calls b0 (take j calls)) (calls ! j))))"
    unfolding kd_def by (rule apply_call_delete_mark [OF assms(6,5)])
  then have d: "kd \<in> set (indexDeleteCollectionKeys (operations (run_calls b0 calls)))"
    using run_calls_delete_mono run_calls_split [OF assms(4), of b0] by (metis subsetD)
  show ?thesis using commit_overlap [OF a d] assms(7) by (simp add: ka_def kd_def)
qed

theorem commit_rejects_overlap_witness:
  "4 < length mixed_calls \<and> adds_index (mixed_calls ! 4)
   \<and> indexable (collection (run_calls (AtomicBuilder_new users) (take 4 mixed_calls))) \<noteq> None
   \<and> 0 < length mixed_calls \<and> deletes_index (mixed_calls ! 0)
   \<and> indexable (collection (run_calls (AtomicBuilder_new users) (take 0 mixed_calls))) \<noteq> None
   \<and> keyEq (collectionIdKey (collection (run_calls (AtomicBuilder_new users)
               (take 4 mixed_calls))))
        (collectionIdKey (collection (run_calls (AtomicBuilder_new users) (take 0 mixed_calls))))
   \<and> AtomicBuilder_commit (run_calls (AtomicBuilder_new users) mixed_calls) store0
       = (KvCommitError, store0)"
proof -
  have l: "4 < length mixed_calls" "0 < length mixed_calls" by (simp_all add: mixed_calls_def)
  have a: "adds_index (mixed_calls ! 4)" and d: "deletes_index (mixed_calls ! 0)"
    by (simp_all add: mixed_calls_def)
  have t4: "collection (run_calls (AtomicBuilder_new users) (take 4 mixed_calls)) = users"
    by (simp add: mixed_calls_def run_calls_def AtomicBuilder_select_def)
  have t0: "collection (run_calls (AtomicBuilder_new users) (take 0 mixed_calls)) = users"
    by (simp add: run_calls_def AtomicBuilder_new_def)
  have ix: "indexable users \<noteq> None" by (simp add: users_def newIndexableCollection_def)
  have i4: "indexable (collection (run_calls (AtomicBuilder_new users) (take 4 mixed_calls)))
      \<noteq> None" using t4 ix by simp
  have i0: "indexable (collection (run_calls (AtomicBuilder_new users) (take 0 mixed_calls)))
      \<noteq> None" using t0 ix by simp
  have k: "keyEq (collectionIdKey (collection (run_calls (AtomicBuilder_new users)
               (take 4 mixed_calls))))
        (collectionIdKey (collection (run_calls (AtomicBuilder_new users) (take 0 mixed_calls))))"
    using t4 t0 by (simp add: keyEq_def)
  show ?thesis
    using l a d i4 i0 k commit_rejects_overlap [OF l(1) a i4 l(2) d i0 k, of store0] by simp
qed

section \<open>Uniqueness of primary index values\<close>

lemma foldl_primaryIndexFns:
  "foldl (\<lambda>op opFn. opFn op) a (primaryIndexFns ix ident data flds) =
     a\<lparr>checks := checks a @ map (\<lambda>k. Check k None) (primaryIndexKeys ix data flds),
       mutations := mutations a
         @ map (\<lambda>k. MSet k (indexEntry data ident)) (primaryIndexKeys ix data flds)\<rparr>"
proof (induction flds arbitrary: a)
  case Nil
  then show ?case by simp
next
  case (Cons index rest)
  then show ?case
    by (cases "field_of data index")
      (simp_all add: Let_def op_check_def op_set_def op_mutate_def)
qed

lemma foldl_secondaryIndexFns:
  "foldl (\<lambda>op opFn. opFn op) a (secondaryIndexFns ix ident data flds) =
     a\<lparr>checks := checks a @ map (\<lambda>k. Check k None) (secondaryIndexKeys ix ident data flds),
       mutations := mutations a
         @ map (\<lambda>k. MSet k data) (secondaryIndexKeys ix ident data flds)\<rparr>"
proof (induction flds arbitrary: a)
  case Nil
  then show ?case by simp
next
  case (Cons index rest)
  then show ?case
    by (cases "field_of data index")
      (simp_all add: Let_def op_check_def op_set_def op_mutate_def)
qed

lemma atomicOperation_push:
  "atomicOperation (pushAtomicFns fns ops)
     = foldl (\<lambda>op opFn. opFn op) (atomicOperation ops) fns"
  by (simp add: atomicOperation_def)

lemma atomicOperation_update [simp]:
  "atomicOperation (ops\<lparr>indexAddCollectionKeys := ks\<rparr>) = atomicOperation ops"
  "atomicOperation (ops\<lparr>indexDeleteCollectionKeys := ks\<rparr>) = atomicOperation ops"
  "atomicOperation (ops\<lparr>prepareDeleteFns := ps\<rparr>) = atomicOperation ops"
  by (simp_all add: atomicOperation_def)

lemma atomicOperation_set:
  "atomicOperation (operations (AtomicBuilder_set b ident data)) =
     (let a = atomicOperation (operations b);
          idKey = extendKey (collectionIdKey (collection b)) [ident]
      in case indexable (collection b) of
           None \<Rightarrow>
             a\<lparr>checks := checks a @ [Check idKey None], mutations := mutations a @ [MSet idKey data]\<rparr>
         | Some ix \<Rightarrow>
             a\<lparr>checks := checks a @ Check idKey None
                  # map (\<lambda>k. Check k None) (primaryIndexKeys ix data (primaryIndexList ix))
                  @ map (\<lambda>k. Check k None)
                      (secondaryIndexKeys ix ident data (secondaryIndexList ix)),
               mutations := mutations a @ MSet idKey data
                  # map (\<lambda>k. MSet k (indexEntry data ident))
                      (primaryIndexKeys ix data (primaryIndexList ix))
                  @ map (\<lambda>k. MSet k data)
                      (secondaryIndexKeys ix ident data (secondaryIndexList ix))\<rparr>)"
  by (cases "indexable (collection b)")
    (simp_all add: AtomicBuilder_set_def Let_def atomicOperation_push foldl_primaryIndexFns
      foldl_secondaryIndexFns op_check_def op_set_def op_mutate_def)

lemma atomicOperation_new [simp]: "atomicOperation (operations (AtomicBuilder_new c)) = atomic"
  by (simp add: AtomicBuilder_new_def atomicOperation_def)

lemma atomicOperation_delete:
  "atomicOperation (operations (AtomicBuilder_delete b ident))
     = op_delete (extendKey (collectionIdKey (collection b)) [ident])
         (atomicOperation (operations b))"
  by (cases "indexable (collection b)")
    (simp_all add: AtomicBuilder_delete_def Let_def atomicOperation_push)

lemma primaryIndexKeys_mem:
  "f \<in> set flds \<Longrightarrow> field_of data f = Some x \<Longrightarrow>
     extendKey (primaryCollectionIndexKey ix) [VStr f, x] \<in> set (primaryIndexKeys ix data flds)"
  by (induction flds) (auto split: option.splits)

lemma primaryIndexKeys_shape:
  "k \<in> set (primaryIndexKeys ix data flds) \<Longrightarrow>
     \<exists>g v. g \<in> set flds \<and> field_of data g = Some v
       \<and> k = extendKey (primaryCollectionIndexKey ix) [VStr g, v]"
  by (induction flds) (auto split: option.splits)

lemma secondaryIndexKeys_shape:
  "k \<in> set (secondaryIndexKeys ix ident data flds) \<Longrightarrow>
     \<exists>g v. g \<in> set flds \<and> field_of data g = Some v
       \<and> k = extendKey (secondaryCollectionIndexKey ix) [VStr g, v, ident]"
  by (induction flds) (auto split: option.splits)

lemma prepareDelete_reads_only [simp]: "reads_only (prepareDelete k ident ix)"
  by (simp add: reads_only_def prepareDelete_def kv_get_def)

lemma mutateEach_reads_only:
  "list_all reads_only (prepareDeleteFns ops)
     \<Longrightarrow> list_all reads_only (prepareDeleteFns (mutateEach c ops m))"
  by (cases m) (auto simp: Let_def split: option.splits)

lemma foldl_mutateEach_reads_only:
  "list_all reads_only (prepareDeleteFns ops)
     \<Longrightarrow> list_all reads_only (prepareDeleteFns (foldl (mutateEach c) ops ms))"
  by (induction ms arbitrary: ops) (auto simp: mutateEach_reads_only)

lemma apply_call_reads_only:
  assumes "list_all reads_only (prepareDeleteFns (operations b))"
  shows "list_all reads_only (prepareDeleteFns (operations (apply_call b call)))"
proof (cases call)
  case (CallMutate ms)
  have "list_all reads_only (prepareDeleteFns
      (pushAtomicFns [\<lambda>op. op_mutate (map (kvMutation (collectionIdKey (collection b))) ms) op]
         (operations b)))"
    using assms by simp
  from foldl_mutateEach_reads_only [OF this]
  show ?thesis using CallMutate by (simp add: AtomicBuilder_mutate_def Let_def)
qed (use assms in \<open>auto simp: AtomicBuilder_select_def AtomicBuilder_add_def
    AtomicBuilder_set_def AtomicBuilder_delete_def AtomicBuilder_check_def AtomicBuilder_sum_def
    Let_def split: option.splits\<close>)

lemma run_calls_reads_only:
  "list_all reads_only (prepareDeleteFns (operations b))
     \<Longrightarrow> list_all reads_only (prepareDeleteFns (operations (run_calls b calls)))"
  unfolding run_calls_def
  by (induction calls arbitrary: b) (auto simp: apply_call_reads_only)

lemma runPrepares_reads:
  "list_all reads_only fns \<Longrightarrow> runPrepares fns s = (pds, s') \<Longrightarrow>
     entries s' = entries s \<and> clock s' = clock s \<and> faults s' = faults s"
proof (induction fns arbitrary: s pds)
  case Nil
  then show ?case by simp
next
  case (Cons fn fns)
  obtain pd s1 where f: "fn s = (pd, s1)" by (cases "fn s")
  obtain pds1 where r: "runPrepares fns s1 = (pds1, s')"
    using Cons.prems(2) f by (auto split: prod.splits)
  have "entries s1 = entries s \<and> clock s1 = clock s \<and> faults s1 = faults s"
    using Cons.prems(1) f by (auto simp: reads_only_def dest: spec [of _ s])
  then show ?case using Cons.IH [OF _ r] Cons.prems(1) by simp
qed

lemma atomic_commit_check_fails:
  "Check k None \<in> set (checks a) \<Longrightarrow> entries s k \<noteq> None \<Longrightarrow>
     fst (atomic_commit a s) = KvCommitError
     \<and> entries (snd (atomic_commit a s)) = entries s
     \<and> clock (snd (atomic_commit a s)) = clock s"
proof -
  assume c: "Check k None \<in> set (checks a)" and e: "entries s k \<noteq> None"
  have "\<not> check_holds (entries s) (Check k None)" using e by auto
  then have "\<not> list_all (check_holds (entries s)) (checks a)"
    using c unfolding list_all_iff by blast
  then show ?thesis by (simp add: atomic_commit_def)
qed


lemma set_prepareDeleteFns [simp]:
  "prepareDeleteFns (operations (AtomicBuilder_set b ident data)) = prepareDeleteFns (operations b)"
  "indexDeleteCollectionKeys (operations (AtomicBuilder_set b ident data))
     = indexDeleteCollectionKeys (operations b)"
  "collection (AtomicBuilder_set b ident data) = collection b"
  by (simp_all add: AtomicBuilder_set_def Let_def split: option.splits)

lemma new_fields [simp]:
  "prepareDeleteFns (operations (AtomicBuilder_new c)) = []"
  "indexDeleteCollectionKeys (operations (AtomicBuilder_new c)) = []"
  "indexAddCollectionKeys (operations (AtomicBuilder_new c)) = []"
  "atomicFns (operations (AtomicBuilder_new c)) = []"
  "collection (AtomicBuilder_new c) = c"
  by (simp_all add: AtomicBuilder_new_def)

lemma select_fields [simp]:
  "operations (AtomicBuilder_select b c) = operations b"
  "collection (AtomicBuilder_select b c) = c"
  by (simp_all add: AtomicBuilder_select_def)

lemma commit_no_deletes:
  assumes "prepareDeleteFns (operations b) = []" and "indexDeleteCollectionKeys (operations b) = []"
  shows "AtomicBuilder_commit b s = atomic_commit (atomicOperation (operations b)) s"
proof -
  obtain cr s2 where a: "atomic_commit (atomicOperation (operations b)) s = (cr, s2)"
    by (cases "atomic_commit (atomicOperation (operations b)) s")
  show ?thesis using assms a by (simp add: AtomicBuilder_commit_def list_ex_iff)
qed

lemma commit_check_fails:
  assumes ro: "list_all reads_only (prepareDeleteFns (operations b))"
    and c: "Check k None \<in> set (checks (atomicOperation (operations b)))"
    and e: "entries s k \<noteq> None"
  shows "fst (AtomicBuilder_commit b s) = KvCommitError
    \<and> entries (snd (AtomicBuilder_commit b s)) = entries s
    \<and> clock (snd (AtomicBuilder_commit b s)) = clock s"
proof (cases "list_ex (\<lambda>addKey. list_ex (\<lambda>deleteKey. keyEq addKey deleteKey)
    (indexDeleteCollectionKeys (operations b))) (indexAddCollectionKeys (operations b))")
  case True
  then show ?thesis by (simp add: AtomicBuilder_commit_def)
next
  case False
  obtain pds s1 where p: "runPrepares (prepareDeleteFns (operations b)) s = (pds, s1)"
    by (cases "runPrepares (prepareDeleteFns (operations b)) s")
  obtain cr s2 where a: "atomic_commit (atomicOperation (operations b)) s1 = (cr, s2)"
    by (cases "atomic_commit (atomicOperation (operations b)) s1")
  have s1: "entries s1 = entries s" "clock s1 = clock s"
    using runPrepares_reads [OF ro p] by simp_all
  have "entries s1 k \<noteq> None" using e s1 by simp
  from atomic_commit_check_fails [OF c this] a
  have "cr = KvCommitError" "entries s2 = entries s1" "clock s2 = clock s1" by simp_all
  then show ?thesis using False p a s1 by (simp add: AtomicBuilder_commit_def)
qed

lemma set_mutations_are_sets:
  "\<forall>m\<in>set (mutations (atomicOperation (operations (AtomicBuilder_set (AtomicBuilder_new c)
      ident data)))). is_set m"
  by (cases "indexable c") (auto simp: atomicOperation_set Let_def atomic_def)

lemma set_primary_check:
  assumes "indexable (collection b) = Some ix" and "f \<in> set (primaryIndexList ix)"
    and "field_of data f = Some x"
  shows "Check (extendKey (primaryCollectionIndexKey ix) [VStr f, x]) None
           \<in> set (checks (atomicOperation (operations (AtomicBuilder_set b ident data))))"
    and "MSet (extendKey (primaryCollectionIndexKey ix) [VStr f, x]) (indexEntry data ident)
           \<in> set (mutations (atomicOperation (operations (AtomicBuilder_set b ident data))))"
  using primaryIndexKeys_mem [OF assms(2,3), of ix] assms(1)
  by (auto simp: atomicOperation_set Let_def)

lemmas builder_defs =
  users_def alice_def bob_def newIndexableCollection_def newCollection_def
  AtomicBuilder_commit_def AtomicBuilder_set_def AtomicBuilder_new_def AtomicBuilder_select_def
  AtomicBuilder_delete_def atomicOperation_def pushAtomicFns_def field_of_def indexEntry_def
  PRIMARY_INDEX_KEY_PREFIX_def SECONDARY_INDEX_KEY_PREFIX_def keyEq_def prepareDelete_def
  cleanupAtomic_def

lemma op_append_append:
  "op_append (op_append a cs ms) cs' ms' = op_append a (cs @ cs') (ms @ ms')"
  by (simp add: op_append_def)

lemma op_append_fields [simp]:
  "checks (op_append a cs ms) = checks a @ cs"
  "mutations (op_append a cs ms) = mutations a @ ms"
  by (simp_all add: op_append_def)

lemma op_append_Nil: "op_append a [] [] = a"
  by (simp add: op_append_def)

lemma map_of_set_field: "map_of (set_field name v fs) = (map_of fs)(name \<mapsto> v)"
proof (induction fs)
  case Nil
  then show ?case by simp
next
  case (Cons p fs)
  obtain name' v' where p: "p = (name', v')" by (cases p)
  show ?case
  proof (cases "name' = name")
    case True
    then show ?thesis using p by (auto simp: fun_eq_iff)
  next
    case False
    then show ?thesis using p Cons.IH by (auto simp: fun_eq_iff)
  qed
qed

lemma indexEntry_id: "field_of (indexEntry data ident) ''__id__'' = Some ident"
  by (cases data) (simp_all add: indexEntry_def field_of_def map_of_set_field)

lemma indexEntry_other:
  "g \<noteq> ''__id__'' \<Longrightarrow> field_of (indexEntry data ident) g = field_of data g"
  by (cases data) (simp_all add: indexEntry_def field_of_def map_of_set_field)

lemma mutateEach_appends:
  "\<exists>cs ms. atomicOperation (mutateEach c ops m) = op_append (atomicOperation ops) cs ms
     \<and> (\<forall>x\<in>set ms. is_set x)"
proof (cases m)
  case (MSet key v)
  let ?a = "atomicOperation ops"
  show ?thesis
  proof (cases "indexable c")
    case None
    then have "atomicOperation (mutateEach c ops m) = op_append ?a [Check key None] []"
      using MSet by (simp add: atomicOperation_push op_check_def op_append_def)
    then show ?thesis by (metis empty_iff list.set(1))
  next
    case (Some ix)
    show ?thesis
    proof (cases "getDocumentId key")
      case None
      then have "atomicOperation (mutateEach c ops m) = op_append ?a [Check key None] []"
        using MSet Some by (simp add: atomicOperation_push op_check_def op_append_def)
      then show ?thesis by (metis empty_iff list.set(1))
    next
      case (Some ident)
      let ?pk = "primaryIndexKeys ix v (primaryIndexList ix)"
      let ?sk = "secondaryIndexKeys ix ident v (secondaryIndexList ix)"
      have "atomicOperation (mutateEach c ops m) =
          op_append ?a (Check key None # map (\<lambda>k. Check k None) ?pk @ map (\<lambda>k. Check k None) ?sk)
            (map (\<lambda>k. MSet k (indexEntry v ident)) ?pk @ map (\<lambda>k. MSet k v) ?sk)"
        using MSet Some \<open>indexable c = Some ix\<close>
        by (simp add: atomicOperation_push foldl_primaryIndexFns foldl_secondaryIndexFns
            op_check_def op_append_def)
      moreover have "\<forall>x\<in>set (map (\<lambda>k. MSet k (indexEntry v ident)) ?pk @ map (\<lambda>k. MSet k v) ?sk).
          is_set x" by auto
      ultimately show ?thesis by blast
    qed
  qed
next
  case (MDelete key)
  have "atomicOperation (mutateEach c ops m) = op_append (atomicOperation ops) [] []"
    using MDelete by (simp add: op_append_Nil split: option.splits)
  then show ?thesis by (metis empty_iff list.set(1))
next
  case (MSum key n)
  have "atomicOperation (mutateEach c ops m) = op_append (atomicOperation ops) [] []"
    using MSum by (simp add: op_append_Nil)
  then show ?thesis by (metis empty_iff list.set(1))
qed

lemma foldl_mutateEach_appends:
  "\<exists>cs ms. atomicOperation (foldl (mutateEach c) ops kvs) = op_append (atomicOperation ops) cs ms
     \<and> (\<forall>x\<in>set ms. is_set x)"
proof (induction kvs arbitrary: ops)
  case Nil
  have "atomicOperation (foldl (mutateEach c) ops []) = op_append (atomicOperation ops) [] []"
    by (simp add: op_append_Nil)
  then show ?case by (metis empty_iff list.set(1))
next
  case (Cons m kvs)
  obtain cs ms where 1: "atomicOperation (mutateEach c ops m) = op_append (atomicOperation ops) cs ms"
    and 2: "\<forall>x\<in>set ms. is_set x" using mutateEach_appends by blast
  obtain cs' ms' where 3: "atomicOperation (foldl (mutateEach c) (mutateEach c ops m) kvs)
      = op_append (atomicOperation (mutateEach c ops m)) cs' ms'"
    and 4: "\<forall>x\<in>set ms'. is_set x" using Cons.IH by blast
  have "atomicOperation (foldl (mutateEach c) ops (m # kvs))
      = op_append (atomicOperation ops) (cs @ cs') (ms @ ms')"
    using 1 3 by (simp add: op_append_append)
  moreover have "\<forall>x\<in>set (ms @ ms'). is_set x" using 2 4 by auto
  ultimately show ?case by blast
qed

lemma is_set_not_delete: "is_set m \<Longrightarrow> \<not> is_delete m"
  by (cases m) simp_all

lemma kvMutation_delete: "is_delete (kvMutation k m) = is_delete_mutation m"
  by (cases m) simp_all

lemma apply_call_appends:
  "\<exists>cs ms. atomicOperation (operations (apply_call b call))
       = op_append (atomicOperation (operations b)) cs ms
     \<and> (\<not> deletes_index call \<longrightarrow> (\<forall>m\<in>set ms. \<not> is_delete m))"
proof -
  let ?a = "atomicOperation (operations b)"
  have set_case: "\<exists>cs ms. atomicOperation (operations (AtomicBuilder_set b ident data))
       = op_append ?a cs ms \<and> (\<forall>m\<in>set ms. \<not> is_delete m)" for ident data
  proof (cases "indexable (collection b)")
    case None
    let ?k = "extendKey (collectionIdKey (collection b)) [ident]"
    have "atomicOperation (operations (AtomicBuilder_set b ident data))
        = op_append ?a [Check ?k None] [MSet ?k data]"
      using None by (simp add: atomicOperation_set Let_def op_append_def)
    moreover have "\<forall>m\<in>set [MSet ?k data]. \<not> is_delete m" by simp
    ultimately show ?thesis by blast
  next
    case (Some ix)
    let ?k = "extendKey (collectionIdKey (collection b)) [ident]"
    let ?pk = "primaryIndexKeys ix data (primaryIndexList ix)"
    let ?sk = "secondaryIndexKeys ix ident data (secondaryIndexList ix)"
    let ?ms = "MSet ?k data # map (\<lambda>k. MSet k (indexEntry data ident)) ?pk
        @ map (\<lambda>k. MSet k data) ?sk"
    have "atomicOperation (operations (AtomicBuilder_set b ident data))
        = op_append ?a (Check ?k None # map (\<lambda>k. Check k None) ?pk @ map (\<lambda>k. Check k None) ?sk)
            ?ms"
      using Some by (simp add: atomicOperation_set Let_def op_append_def)
    moreover have "\<forall>m\<in>set ?ms. \<not> is_delete m" by auto
    ultimately show ?thesis by blast
  qed
  show ?thesis
  proof (cases call)
    case (CallSelect c)
    have "atomicOperation (operations (apply_call b call)) = op_append ?a [] []"
      using CallSelect by (simp add: op_append_Nil)
    then show ?thesis by (metis empty_iff list.set(1))
  next
    case (CallAdd generatedId data)
    then show ?thesis using set_case [of generatedId data]
      by (auto simp: AtomicBuilder_add_eq_set)
  next
    case (CallSet ident data)
    then show ?thesis using set_case [of ident data] by auto
  next
    case (CallDelete ident)
    have "atomicOperation (operations (apply_call b call))
        = op_append ?a [] [MDelete (extendKey (collectionIdKey (collection b)) [ident])]"
      using CallDelete
      by (simp add: atomicOperation_delete op_delete_def op_mutate_def op_append_def)
    then show ?thesis using CallDelete by auto
  next
    case (CallCheck atomicChecks)
    let ?cs = "map (\<lambda>(ident, versionstamp).
        Check (extendKey (collectionIdKey (collection b)) [ident]) versionstamp) atomicChecks"
    have "atomicOperation (operations (apply_call b call)) = op_append ?a ?cs []"
      using CallCheck
      by (simp add: AtomicBuilder_check_def Let_def atomicOperation_push op_check_def
          op_append_def)
    then show ?thesis by (metis empty_iff list.set(1))
  next
    case (CallSum ident n)
    let ?k = "extendKey (collectionIdKey (collection b)) [ident]"
    have "atomicOperation (operations (apply_call b call)) = op_append ?a [] [MSum ?k n]"
      using CallSum
      by (simp add: AtomicBuilder_sum_def Let_def atomicOperation_push op_sum_def op_mutate_def
          op_append_def)
    moreover have "\<forall>m\<in>set [MSum ?k n]. \<not> is_delete m" by simp
    ultimately show ?thesis by blast
  next
    case (CallMutate muts)
    let ?kvs = "map (kvMutation (collectionIdKey (collection b))) muts"
    let ?ops1 = "pushAtomicFns [\<lambda>op. op_mutate ?kvs op] (operations b)"
    have o1: "atomicOperation ?ops1 = op_append ?a [] ?kvs"
      by (simp add: atomicOperation_push op_mutate_def op_append_def)
    obtain cs ms where f: "atomicOperation (foldl (mutateEach (collection b)) ?ops1 ?kvs)
        = op_append (atomicOperation ?ops1) cs ms" and s: "\<forall>x\<in>set ms. is_set x"
      using foldl_mutateEach_appends by blast
    have e: "atomicOperation (operations (apply_call b call)) = op_append ?a cs (?kvs @ ms)"
      using CallMutate f o1 by (simp add: AtomicBuilder_mutate_def Let_def op_append_append)
    have "\<not> deletes_index call \<longrightarrow> (\<forall>m\<in>set (?kvs @ ms). \<not> is_delete m)"
      using CallMutate s by (auto simp: list_ex_iff kvMutation_delete is_set_not_delete)
    then show ?thesis using e by blast
  qed
qed

lemma run_calls_appends:
  "\<exists>cs ms. atomicOperation (operations (run_calls b calls))
       = op_append (atomicOperation (operations b)) cs ms
     \<and> (\<not> list_ex deletes_index calls \<longrightarrow> (\<forall>m\<in>set ms. \<not> is_delete m))"
proof (induction calls arbitrary: b)
  case Nil
  have "atomicOperation (operations (run_calls b [])) = op_append (atomicOperation (operations b)) [] []"
    by (simp add: run_calls_def op_append_Nil)
  then show ?case by (metis empty_iff list.set(1))
next
  case (Cons call calls)
  obtain cs ms where 1: "atomicOperation (operations (apply_call b call))
      = op_append (atomicOperation (operations b)) cs ms"
    and 2: "\<not> deletes_index call \<longrightarrow> (\<forall>m\<in>set ms. \<not> is_delete m)"
    using apply_call_appends by blast
  obtain cs' ms' where 3: "atomicOperation (operations (run_calls (apply_call b call) calls))
      = op_append (atomicOperation (operations (apply_call b call))) cs' ms'"
    and 4: "\<not> list_ex deletes_index calls \<longrightarrow> (\<forall>m\<in>set ms'. \<not> is_delete m)"
    using Cons.IH by blast
  have r: "run_calls b (call # calls) = run_calls (apply_call b call) calls"
    by (simp add: run_calls_def)
  have "atomicOperation (operations (run_calls b (call # calls)))
      = op_append (atomicOperation (operations b)) (cs @ cs') (ms @ ms')"
    using 1 3 r by (simp add: op_append_append)
  moreover have "\<not> list_ex deletes_index (call # calls)
      \<longrightarrow> (\<forall>m\<in>set (ms @ ms'). \<not> is_delete m)"
    using 2 4 by auto
  ultimately show ?case by blast
qed


lemma mutateEach_no_delete:
  "\<not> is_delete m \<Longrightarrow>
     prepareDeleteFns (mutateEach c ops m) = prepareDeleteFns ops
     \<and> indexDeleteCollectionKeys (mutateEach c ops m) = indexDeleteCollectionKeys ops"
  by (cases m) (simp_all add: Let_def split: option.splits)

lemma foldl_mutateEach_no_delete:
  "\<forall>m\<in>set kvs. \<not> is_delete m \<Longrightarrow>
     prepareDeleteFns (foldl (mutateEach c) ops kvs) = prepareDeleteFns ops
     \<and> indexDeleteCollectionKeys (foldl (mutateEach c) ops kvs) = indexDeleteCollectionKeys ops"
  by (induction kvs arbitrary: ops) (simp_all add: mutateEach_no_delete)

lemma apply_call_no_delete:
  assumes "\<not> deletes_index call"
  shows "prepareDeleteFns (operations (apply_call b call)) = prepareDeleteFns (operations b)
    \<and> indexDeleteCollectionKeys (operations (apply_call b call))
        = indexDeleteCollectionKeys (operations b)"
proof (cases call)
  case (CallMutate muts)
  have "\<forall>m\<in>set (map (kvMutation (collectionIdKey (collection b))) muts). \<not> is_delete m"
    using assms CallMutate by (auto simp: list_ex_iff kvMutation_delete)
  from foldl_mutateEach_no_delete [OF this]
  show ?thesis using CallMutate by (simp add: AtomicBuilder_mutate_def Let_def)
qed (use assms in \<open>auto simp: AtomicBuilder_add_eq_set AtomicBuilder_check_def
    AtomicBuilder_sum_def Let_def\<close>)

lemma run_calls_no_delete:
  "\<not> list_ex deletes_index calls \<Longrightarrow>
     prepareDeleteFns (operations (run_calls b calls)) = prepareDeleteFns (operations b)
     \<and> indexDeleteCollectionKeys (operations (run_calls b calls))
         = indexDeleteCollectionKeys (operations b)"
  unfolding run_calls_def
  by (induction calls arbitrary: b) (simp_all add: apply_call_no_delete)

lemma apply_mutation_stays:
  "apply_mutation vs m es = Some es' \<Longrightarrow> \<not> is_delete m \<Longrightarrow> es k \<noteq> None \<or> mkey m = k
     \<Longrightarrow> es' k \<noteq> None"
  by (cases m) (auto split: option.splits kvvalue.splits prod.splits if_splits)

lemma apply_mutations_stays:
  "apply_mutations vs ms es = Some es' \<Longrightarrow> \<forall>m\<in>set ms. \<not> is_delete m \<Longrightarrow> es k \<noteq> None
     \<Longrightarrow> es' k \<noteq> None"
proof (induction ms arbitrary: es)
  case Nil
  then show ?case by simp
next
  case (Cons m ms)
  from Cons.prems(1) obtain es1 where
    m: "apply_mutation vs m es = Some es1" and r: "apply_mutations vs ms es1 = Some es'"
    by (auto split: option.splits)
  have "es1 k \<noteq> None" using apply_mutation_stays [OF m] Cons.prems(2,3) by simp
  then show ?case using Cons.IH [OF r] Cons.prems(2) by simp
qed

lemma apply_mutations_kept:
  "apply_mutations vs ms es = Some es' \<Longrightarrow> \<forall>m\<in>set ms. \<not> is_delete m
     \<Longrightarrow> k \<in> mkey ` set ms \<Longrightarrow> es' k \<noteq> None"
proof (induction ms arbitrary: es)
  case Nil
  then show ?case by simp
next
  case (Cons m ms)
  from Cons.prems(1) obtain es1 where
    m: "apply_mutation vs m es = Some es1" and r: "apply_mutations vs ms es1 = Some es'"
    by (auto split: option.splits)
  show ?case
  proof (cases "mkey m = k")
    case True
    then have "es1 k \<noteq> None" using apply_mutation_stays [OF m] Cons.prems(2) by simp
    then show ?thesis using apply_mutations_stays [OF r] Cons.prems(2) by simp
  next
    case False
    then have "k \<in> mkey ` set ms" using Cons.prems(3) by auto
    then show ?thesis using Cons.IH [OF r] Cons.prems(2) by simp
  qed
qed

lemma run_calls_primary_check:
  assumes i: "i < length calls"
    and call: "calls ! i = CallSet ident data \<or> calls ! i = CallAdd ident data"
    and ix: "indexable (collection (run_calls b (take i calls))) = Some ix"
    and f: "f \<in> set (primaryIndexList ix)" and x: "field_of data f = Some x"
  shows "Check (extendKey (primaryCollectionIndexKey ix) [VStr f, x]) None
           \<in> set (checks (atomicOperation (operations (run_calls b calls))))"
    and "MSet (extendKey (primaryCollectionIndexKey ix) [VStr f, x]) (indexEntry data ident)
           \<in> set (mutations (atomicOperation (operations (run_calls b calls))))"
proof -
  let ?bi = "run_calls b (take i calls)"
  have ac: "apply_call ?bi (calls ! i) = AtomicBuilder_set ?bi ident data"
    using call by (auto simp: AtomicBuilder_add_eq_set)
  obtain cs ms where e: "atomicOperation (operations (run_calls b calls))
      = op_append (atomicOperation (operations (AtomicBuilder_set ?bi ident data))) cs ms"
    using run_calls_appends [of "apply_call ?bi (calls ! i)" "drop (Suc i) calls"]
      run_calls_split [OF i, of b] ac by auto
  show "Check (extendKey (primaryCollectionIndexKey ix) [VStr f, x]) None
           \<in> set (checks (atomicOperation (operations (run_calls b calls))))"
    using set_primary_check(1) [OF ix f x, of ident] by (simp add: e)
  show "MSet (extendKey (primaryCollectionIndexKey ix) [VStr f, x]) (indexEntry data ident)
           \<in> set (mutations (atomicOperation (operations (run_calls b calls))))"
    using set_primary_check(2) [OF ix f x, of ident] by (simp add: e)
qed

lemma commit_leaves_index_entry:
  assumes nd: "\<not> list_ex deletes_index calls"
    and m: "MSet k v \<in> set (mutations (atomicOperation
              (operations (run_calls (AtomicBuilder_new c) calls))))"
    and c: "AtomicBuilder_commit (run_calls (AtomicBuilder_new c) calls) s = (r, s')"
    and ok: "ok r"
  shows "entries s' k \<noteq> None"
proof -
  let ?b = "run_calls (AtomicBuilder_new c) calls"
  have "AtomicBuilder_commit ?b s = atomic_commit (atomicOperation (operations ?b)) s"
    using run_calls_no_delete [OF nd, of "AtomicBuilder_new c"]
    by (intro commit_no_deletes) simp_all
  then have a: "atomic_commit (atomicOperation (operations ?b)) s = (r, s')" using c by simp
  have ap: "apply_mutations (clock s) (mutations (atomicOperation (operations ?b))) (entries s)
      = Some (entries s')"
    using atomic_commit_ok [OF a ok] by simp
  obtain cs ms where e: "atomicOperation (operations ?b) = op_append atomic cs ms"
    and n: "\<forall>m\<in>set ms. \<not> is_delete m"
    using run_calls_appends [of "AtomicBuilder_new c" calls] nd by auto
  have all: "\<forall>m\<in>set (mutations (atomicOperation (operations ?b))). \<not> is_delete m"
    using n by (simp add: e atomic_def)
  have "k \<in> mkey ` set (mutations (atomicOperation (operations ?b)))" using m by force
  from apply_mutations_kept [OF ap all this] show ?thesis .
qed

text \<open>
  C1. Let \<open>f\<close> be a primary index field of a collection, and let two documents have the same
  defined value \<open>x\<close> at \<open>f\<close>. A first builder is made by any calls without a deletion, one of
  them a \<^verbatim>\<open>set\<close> or \<^verbatim>\<open>add\<close> of the first document while the collection is selected, and
  its commit succeeds. A second builder is made by any calls, one of them a \<^verbatim>\<open>set\<close> or
  \<^verbatim>\<open>add\<close> of the second document while the collection is selected. Then the commit of the
  second builder returns the failed result and leaves the entries and the versionstamp
  clock of the store as the first commit left them. The second builder has enqueued a check
  that the primary index key of \<open>x\<close> has versionstamp null and a set of that key to the index
  entry of its document; the index entry has the id at \<^verbatim>\<open>__id__\<close> and the fields of the
  document everywhere else; \<^verbatim>\<open>add\<close> with the generated id is \<^verbatim>\<open>set\<close> with that id.
  The first commit has left an entry at the index key, and on every store with an entry at
  that key, however it came there, the commit of the second builder fails in the same way.
\<close>

theorem primary_index_unique:
  assumes "f \<in> set (primaryIndexList ix)"
    and "field_of v1 f = Some x" and "field_of v2 f = Some x"
    and "i < length calls1"
    and "calls1 ! i = CallSet id1 v1 \<or> calls1 ! i = CallAdd id1 v1"
    and "indexable (collection (run_calls (AtomicBuilder_new c1) (take i calls1))) = Some ix"
    and "\<not> list_ex deletes_index calls1"
    and "AtomicBuilder_commit (run_calls (AtomicBuilder_new c1) calls1) s = (r1, s1)"
    and "ok r1"
    and "j < length calls2"
    and "calls2 ! j = CallSet id2 v2 \<or> calls2 ! j = CallAdd id2 v2"
    and "indexable (collection (run_calls (AtomicBuilder_new c2) (take j calls2))) = Some ix"
    and "second = run_calls (AtomicBuilder_new c2) calls2"
    and "pk = extendKey (primaryCollectionIndexKey ix) [VStr f, x]"
  shows "fst (AtomicBuilder_commit second s1) = KvCommitError
    \<and> entries (snd (AtomicBuilder_commit second s1)) = entries s1
    \<and> clock (snd (AtomicBuilder_commit second s1)) = clock s1
    \<and> Check pk None \<in> set (checks (atomicOperation (operations second)))
    \<and> MSet pk (indexEntry v2 id2) \<in> set (mutations (atomicOperation (operations second)))
    \<and> field_of (indexEntry v2 id2) ''__id__'' = Some id2
    \<and> (\<forall>g. g \<noteq> ''__id__'' \<longrightarrow> field_of (indexEntry v2 id2) g = field_of v2 g)
    \<and> entries s1 pk \<noteq> None
    \<and> (\<forall>s0. entries s0 pk \<noteq> None \<longrightarrow>
          fst (AtomicBuilder_commit second s0) = KvCommitError
          \<and> entries (snd (AtomicBuilder_commit second s0)) = entries s0
          \<and> clock (snd (AtomicBuilder_commit second s0)) = clock s0)
    \<and> AtomicBuilder_add b id2 v2 = AtomicBuilder_set b id2 v2"
proof -
  have m1: "MSet pk (indexEntry v1 id1) \<in> set (mutations (atomicOperation
      (operations (run_calls (AtomicBuilder_new c1) calls1))))"
    unfolding assms(14) by (rule run_calls_primary_check(2) [OF assms(4,5,6,1,2)])
  have present: "entries s1 pk \<noteq> None"
    by (rule commit_leaves_index_entry [OF assms(7) m1 assms(8,9)])
  have ch: "Check pk None \<in> set (checks (atomicOperation (operations second)))"
    unfolding assms(13,14) by (rule run_calls_primary_check(1) [OF assms(10,11,12,1,3)])
  have mu: "MSet pk (indexEntry v2 id2) \<in> set (mutations (atomicOperation (operations second)))"
    unfolding assms(13,14) by (rule run_calls_primary_check(2) [OF assms(10,11,12,1,3)])
  have ro: "list_all reads_only (prepareDeleteFns (operations second))"
    unfolding assms(13) by (rule run_calls_reads_only) simp
  have fail: "fst (AtomicBuilder_commit second s1) = KvCommitError
    \<and> entries (snd (AtomicBuilder_commit second s1)) = entries s1
    \<and> clock (snd (AtomicBuilder_commit second s1)) = clock s1"
    by (rule commit_check_fails [OF ro ch present])
  have pre: "\<forall>s0. entries s0 pk \<noteq> None \<longrightarrow>
          fst (AtomicBuilder_commit second s0) = KvCommitError
          \<and> entries (snd (AtomicBuilder_commit second s0)) = entries s0
          \<and> clock (snd (AtomicBuilder_commit second s0)) = clock s0"
    using commit_check_fails [OF ro ch] by blast
  have ident: "field_of (indexEntry v2 id2) ''__id__'' = Some id2" by (rule indexEntry_id)
  have rest: "\<forall>g. g \<noteq> ''__id__'' \<longrightarrow> field_of (indexEntry v2 id2) g = field_of v2 g"
    by (simp add: indexEntry_other)
  have ad: "AtomicBuilder_add b id2 v2 = AtomicBuilder_set b id2 v2"
    by (rule AtomicBuilder_add_eq_set)
  from fail ch mu ident rest present pre ad show ?thesis by blast
qed

theorem primary_index_unique_witness:
  "''email'' \<in> set (primaryIndexList (the (indexable users)))
   \<and> field_of alice ''email'' = Some (VStr ''x'') \<and> field_of bob ''email'' = Some (VStr ''x'')
   \<and> 3 < length first_calls
   \<and> first_calls ! 3 = CallAdd (VStr ''u1'') alice
   \<and> indexable (collection (run_calls (AtomicBuilder_new users) (take 3 first_calls)))
       = Some (the (indexable users))
   \<and> \<not> list_ex deletes_index first_calls
   \<and> AtomicBuilder_commit (run_calls (AtomicBuilder_new users) first_calls) empty_store
       = (KvCommitResult 0, after_alice)
   \<and> ok (KvCommitResult 0)
   \<and> 0 < length second_calls
   \<and> second_calls ! 0 = CallSet (VStr ''u2'') bob
   \<and> indexable (collection (run_calls (AtomicBuilder_new users) (take 0 second_calls)))
       = Some (the (indexable users))
   \<and> fst (AtomicBuilder_commit (run_calls (AtomicBuilder_new users) second_calls) after_alice)
       = KvCommitError
   \<and> entries (snd (AtomicBuilder_commit (run_calls (AtomicBuilder_new users) second_calls)
        after_alice)) = entries after_alice
   \<and> field_of (indexEntry bob (VStr ''u2'')) ''__id__'' = Some (VStr ''u2'')
   \<and> field_of (indexEntry bob (VStr ''u2'')) ''name'' = Some (VStr ''b'')"
proof -
  have f: "''email'' \<in> set (primaryIndexList (the (indexable users)))"
    by (simp add: users_def newIndexableCollection_def)
  have v1: "field_of alice ''email'' = Some (VStr ''x'')"
    and v2: "field_of bob ''email'' = Some (VStr ''x'')"
    by (simp_all add: alice_def bob_def field_of_def)
  have l1: "3 < length first_calls" and l2: "0 < length second_calls"
    by (simp_all add: first_calls_def second_calls_def)
  have c1: "first_calls ! 3 = CallAdd (VStr ''u1'') alice"
    and c2: "second_calls ! 0 = CallSet (VStr ''u2'') bob"
    by (simp_all add: first_calls_def second_calls_def)
  have d1: "first_calls ! 3 = CallSet (VStr ''u1'') alice
      \<or> first_calls ! 3 = CallAdd (VStr ''u1'') alice" using c1 by simp
  have d2: "second_calls ! 0 = CallSet (VStr ''u2'') bob
      \<or> second_calls ! 0 = CallAdd (VStr ''u2'') bob" using c2 by simp
  have i1: "indexable (collection (run_calls (AtomicBuilder_new users) (take 3 first_calls)))
       = Some (the (indexable users))"
    by (simp add: first_calls_def run_calls_def users_def newIndexableCollection_def)
  have i2: "indexable (collection (run_calls (AtomicBuilder_new users) (take 0 second_calls)))
       = Some (the (indexable users))"
    by (simp add: run_calls_def users_def newIndexableCollection_def)
  have nd: "\<not> list_ex deletes_index first_calls" by (simp add: first_calls_def)
  have c: "AtomicBuilder_commit (run_calls (AtomicBuilder_new users) first_calls) empty_store
       = (KvCommitResult 0, after_alice)"
    unfolding after_alice_def
    by (simp add: first_calls_def run_calls_def AtomicBuilder_add_eq_set AtomicBuilder_sum_def
        op_sum_def builder_defs eval_defs)
  have o: "ok (KvCommitResult 0)" by simp
  have nm: "field_of bob ''name'' = Some (VStr ''b'')" by (simp add: bob_def field_of_def)
  note u = primary_index_unique [OF f v1 v2 l1 d1 i1 nd c o l2 d2 i2 refl refl]
  have g: "field_of (indexEntry bob (VStr ''u2'')) ''name'' = Some (VStr ''b'')"
    using u nm by simp
  from f v1 v2 l1 c1 i1 nd c o l2 c2 i2 u g show ?thesis by blast
qed

section \<open>Sparse indexes\<close>

lemma set_check_keys:
  assumes "indexable c = Some ix"
  shows "ckey ` set (checks (atomicOperation (operations
            (AtomicBuilder_set (AtomicBuilder_new c) ident data))))
      = insert (extendKey (collectionIdKey c) [ident])
          (set (primaryIndexKeys ix data (primaryIndexList ix))
            \<union> set (secondaryIndexKeys ix ident data (secondaryIndexList ix)))"
    and "mkey ` set (mutations (atomicOperation (operations
            (AtomicBuilder_set (AtomicBuilder_new c) ident data))))
      = insert (extendKey (collectionIdKey c) [ident])
          (set (primaryIndexKeys ix data (primaryIndexList ix))
            \<union> set (secondaryIndexKeys ix ident data (secondaryIndexList ix)))"
  using assms by (simp_all add: atomicOperation_set Let_def atomic_def image_Un image_image)

lemma set_appends:
  "checks (atomicOperation (operations (AtomicBuilder_set b ident data)))
     = checks (atomicOperation (operations b))
       @ checks (atomicOperation (operations
           (AtomicBuilder_set (AtomicBuilder_new (collection b)) ident data)))"
  "mutations (atomicOperation (operations (AtomicBuilder_set b ident data)))
     = mutations (atomicOperation (operations b))
       @ mutations (atomicOperation (operations
           (AtomicBuilder_set (AtomicBuilder_new (collection b)) ident data)))"
  by (cases "indexable (collection b)"; simp add: atomicOperation_set Let_def atomic_def)+

lemma checks_agree:
  "\<forall>c\<in>set cs. es (ckey c) = es' (ckey c)
     \<Longrightarrow> list_all (check_holds es) cs = list_all (check_holds es') cs"
proof (induction cs)
  case Nil
  then show ?case by simp
next
  case (Cons c cs)
  then show ?case by (cases c) simp
qed

lemma primaryIndexKeys_none:
  "\<forall>g\<in>set flds. field_of data g = None \<Longrightarrow> primaryIndexKeys ix data flds = []"
  by (induction flds) simp_all

lemma index_key_markers [simp]:
  "ID_KEY_PREFIX \<noteq> PRIMARY_INDEX_KEY_PREFIX" "ID_KEY_PREFIX \<noteq> SECONDARY_INDEX_KEY_PREFIX"
  "PRIMARY_INDEX_KEY_PREFIX \<noteq> SECONDARY_INDEX_KEY_PREFIX"
  "PRIMARY_INDEX_KEY_PREFIX \<noteq> ID_KEY_PREFIX" "SECONDARY_INDEX_KEY_PREFIX \<noteq> ID_KEY_PREFIX"
  "SECONDARY_INDEX_KEY_PREFIX \<noteq> PRIMARY_INDEX_KEY_PREFIX"
  by (simp_all add: ID_KEY_PREFIX_def PRIMARY_INDEX_KEY_PREFIX_def SECONDARY_INDEX_KEY_PREFIX_def)

lemma sparse_keys:
  assumes c: "c = newIndexableCollection key primaryFields secondaryFields"
    and ix: "indexable c = Some ix"
    and f: "field_of data f = None"
    and k: "k \<in> insert (extendKey (collectionIdKey c) [ident])
          (set (primaryIndexKeys ix data (primaryIndexList ix))
            \<union> set (secondaryIndexKeys ix ident data (secondaryIndexList ix)))"
  shows "\<not> prefix (extendKey (primaryCollectionIndexKey ix) [VStr f]) k
    \<and> \<not> prefix (extendKey (secondaryCollectionIndexKey ix) [VStr f]) k"
proof -
  have ixd: "ix = \<lparr>primaryCollectionIndexKey =
           extendKey [KVDEX_KEY_PREFIX] (key @ [PRIMARY_INDEX_KEY_PREFIX]),
         secondaryCollectionIndexKey =
           extendKey [KVDEX_KEY_PREFIX] (key @ [SECONDARY_INDEX_KEY_PREFIX]),
         primaryIndexList = primaryFields,
         secondaryIndexList = secondaryFields\<rparr>"
    using c ix by (simp add: newIndexableCollection_def)
  consider (ident) "k = extendKey (collectionIdKey c) [ident]"
    | (primary) g v where "field_of data g = Some v"
        "k = extendKey (primaryCollectionIndexKey ix) [VStr g, v]"
    | (secondary) g v where "field_of data g = Some v"
        "k = extendKey (secondaryCollectionIndexKey ix) [VStr g, v, ident]"
    using k primaryIndexKeys_shape [of k ix data "primaryIndexList ix"]
      secondaryIndexKeys_shape [of k ix ident data "secondaryIndexList ix"] by auto
  then show ?thesis
  proof cases
    case ident
    then show ?thesis using c ixd by (simp add: newIndexableCollection_def extendKey_def)
  next
    case (primary g v)
    then have "g \<noteq> f" using f by auto
    then show ?thesis using primary(2) ixd by (simp add: extendKey_def)
  next
    case (secondary g v)
    then have "g \<noteq> f" using f by auto
    then show ?thesis using secondary(2) ixd by (simp add: extendKey_def)
  qed
qed

lemma sparse_disjoint:
  assumes c: "c = newIndexableCollection key primaryFields secondaryFields"
    and ix: "indexable c = Some ix"
    and none: "\<forall>g\<in>set primaryFields. field_of data g = None"
    and ids: "id1 \<noteq> ident"
    and k: "k \<in> ckey ` set (checks (atomicOperation (operations
            (AtomicBuilder_set (AtomicBuilder_new c) ident data))))"
  shows "k \<notin> mkey ` set (mutations (atomicOperation (operations
            (AtomicBuilder_set (AtomicBuilder_new c) id1 v1))))"
proof
  assume m: "k \<in> mkey ` set (mutations (atomicOperation (operations
            (AtomicBuilder_set (AtomicBuilder_new c) id1 v1))))"
  have ixd: "ix = \<lparr>primaryCollectionIndexKey =
           extendKey [KVDEX_KEY_PREFIX] (key @ [PRIMARY_INDEX_KEY_PREFIX]),
         secondaryCollectionIndexKey =
           extendKey [KVDEX_KEY_PREFIX] (key @ [SECONDARY_INDEX_KEY_PREFIX]),
         primaryIndexList = primaryFields,
         secondaryIndexList = secondaryFields\<rparr>"
    using c ix by (simp add: newIndexableCollection_def)
  have idk: "collectionIdKey c = extendKey [KVDEX_KEY_PREFIX] (key @ [ID_KEY_PREFIX])"
    using c by (simp add: newIndexableCollection_def)
  have p0: "primaryIndexKeys ix data (primaryIndexList ix) = []"
    using none ixd by (simp add: primaryIndexKeys_none)
  have k2: "k = extendKey (collectionIdKey c) [ident]
      \<or> (\<exists>g v. k = extendKey (secondaryCollectionIndexKey ix) [VStr g, v, ident])"
    using k p0 secondaryIndexKeys_shape [of k ix ident data "secondaryIndexList ix"]
    unfolding set_check_keys(1) [OF ix] by auto
  have k1: "k = extendKey (collectionIdKey c) [id1]
      \<or> (\<exists>g v. k = extendKey (primaryCollectionIndexKey ix) [VStr g, v])
      \<or> (\<exists>g v. k = extendKey (secondaryCollectionIndexKey ix) [VStr g, v, id1])"
    using m primaryIndexKeys_shape [of k ix v1 "primaryIndexList ix"]
      secondaryIndexKeys_shape [of k ix id1 v1 "secondaryIndexList ix"]
    unfolding set_check_keys(2) [OF ix] by auto
  show False
    using k1 k2 ids unfolding idk ixd by (auto simp: extendKey_def)
qed

lemma sparse_second_commit:
  assumes c: "c = newIndexableCollection key primaryFields secondaryFields"
    and ix: "indexable c = Some ix"
    and none: "\<forall>g\<in>set primaryFields. field_of data g = None"
    and ids: "id1 \<noteq> ident"
    and alone: "ok (fst (AtomicBuilder_commit
        (AtomicBuilder_set (AtomicBuilder_new c) ident data) s))"
    and nr: "\<not> refused (snd (AtomicBuilder_commit
        (AtomicBuilder_set (AtomicBuilder_new c) id1 v1) s))"
  shows "ok (fst (AtomicBuilder_commit (AtomicBuilder_set (AtomicBuilder_new c) ident data)
      (snd (AtomicBuilder_commit (AtomicBuilder_set (AtomicBuilder_new c) id1 v1) s))))"
proof -
  let ?b1 = "AtomicBuilder_set (AtomicBuilder_new c) id1 v1"
  let ?b2 = "AtomicBuilder_set (AtomicBuilder_new c) ident data"
  let ?a1 = "atomicOperation (operations ?b1)"
  let ?a2 = "atomicOperation (operations ?b2)"
  have e1: "AtomicBuilder_commit ?b1 s = atomic_commit ?a1 s" for s
    by (rule commit_no_deletes) simp_all
  have e2: "AtomicBuilder_commit ?b2 s = atomic_commit ?a2 s" for s
    by (rule commit_no_deletes) simp_all
  obtain r1 s1 where a1: "atomic_commit ?a1 s = (r1, s1)" by (cases "atomic_commit ?a1 s")
  obtain r2 s2 where a2: "atomic_commit ?a2 s = (r2, s2)" by (cases "atomic_commit ?a2 s")
  have "ok r2" using alone e2 a2 by simp
  from atomic_commit_ok [OF a2 this]
  have holds: "list_all (check_holds (entries s)) (checks ?a2)" by simp
  have "\<forall>ch\<in>set (checks ?a2). entries s1 (ckey ch) = entries s (ckey ch)"
  proof
    fix ch assume "ch \<in> set (checks ?a2)"
    then have "ckey ch \<in> ckey ` set (checks ?a2)" by simp
    from sparse_disjoint [OF c ix none ids this, of v1]
    show "entries s1 (ckey ch) = entries s (ckey ch)"
      by (rule atomic_commit_other [OF a1])
  qed
  from checks_agree [OF this] holds
  have h1: "list_all (check_holds (entries s1)) (checks ?a2)" by simp
  have ns: "\<forall>m\<in>set (mutations ?a2). \<not> is_sum m"
  proof
    fix m assume "m \<in> set (mutations ?a2)"
    then have "is_set m" using set_mutations_are_sets [of c ident data] by blast
    then show "\<not> is_sum m" by (cases m) simp_all
  qed
  have nr1: "\<not> refused s1" using nr e1 a1 by simp
  show ?thesis
    using atomic_commit_succeeds [OF nr1 h1 ns] e1 e2 a1 by simp
qed

text \<open>
  C9. Let the builder's collection be indexable and let the document leave the field \<open>f\<close>
  undefined. \<^verbatim>\<open>set\<close> (and \<^verbatim>\<open>add\<close>, which enqueues the same) appends to the checks and
  mutations of the builder those that it enqueues on a new builder, and none of these has a
  key under the primary or the secondary index key of \<open>f\<close>. Consequently, if the document
  leaves every primary index field undefined and its commit alone succeeds on a store, it
  also succeeds after another document with a different id has been committed to that
  store, unless the store itself refuses the commit.
\<close>

theorem undefined_field_not_indexed:
  assumes "collection b = newIndexableCollection key primaryFields secondaryFields"
    and "indexable (collection b) = Some ix"
    and "field_of data f = None"
    and "enq = atomicOperation (operations
           (AtomicBuilder_set (AtomicBuilder_new (collection b)) ident data))"
  shows "checks (atomicOperation (operations (AtomicBuilder_set b ident data)))
       = checks (atomicOperation (operations b)) @ checks enq
    \<and> mutations (atomicOperation (operations (AtomicBuilder_set b ident data)))
       = mutations (atomicOperation (operations b)) @ mutations enq
    \<and> AtomicBuilder_add b ident data = AtomicBuilder_set b ident data
    \<and> (\<forall>k\<in>ckey ` set (checks enq) \<union> mkey ` set (mutations enq).
          \<not> prefix (extendKey (primaryCollectionIndexKey ix) [VStr f]) k
          \<and> \<not> prefix (extendKey (secondaryCollectionIndexKey ix) [VStr f]) k)
    \<and> ((\<forall>g\<in>set primaryFields. field_of data g = None) \<and> id1 \<noteq> ident
         \<and> ok (fst (AtomicBuilder_commit
                (AtomicBuilder_set (AtomicBuilder_new (collection b)) ident data) s))
         \<and> \<not> refused (snd (AtomicBuilder_commit
                (AtomicBuilder_set (AtomicBuilder_new (collection b)) id1 v1) s))
        \<longrightarrow> ok (fst (AtomicBuilder_commit
                (AtomicBuilder_set (AtomicBuilder_new (collection b)) ident data)
                (snd (AtomicBuilder_commit
                   (AtomicBuilder_set (AtomicBuilder_new (collection b)) id1 v1) s)))))"
proof -
  have keys: "\<forall>k\<in>ckey ` set (checks enq) \<union> mkey ` set (mutations enq).
          \<not> prefix (extendKey (primaryCollectionIndexKey ix) [VStr f]) k
          \<and> \<not> prefix (extendKey (secondaryCollectionIndexKey ix) [VStr f]) k"
    unfolding assms(4) set_check_keys [OF assms(2)]
    using sparse_keys [OF assms(1,2,3)] by blast
  have c: "checks (atomicOperation (operations (AtomicBuilder_set b ident data)))
       = checks (atomicOperation (operations b)) @ checks enq"
    unfolding assms(4) by (rule set_appends(1))
  have m: "mutations (atomicOperation (operations (AtomicBuilder_set b ident data)))
       = mutations (atomicOperation (operations b)) @ mutations enq"
    unfolding assms(4) by (rule set_appends(2))
  have a: "AtomicBuilder_add b ident data = AtomicBuilder_set b ident data"
    by (rule AtomicBuilder_add_eq_set)
  have two: "(\<forall>g\<in>set primaryFields. field_of data g = None) \<and> id1 \<noteq> ident
         \<and> ok (fst (AtomicBuilder_commit
                (AtomicBuilder_set (AtomicBuilder_new (collection b)) ident data) s))
         \<and> \<not> refused (snd (AtomicBuilder_commit
                (AtomicBuilder_set (AtomicBuilder_new (collection b)) id1 v1) s))
        \<longrightarrow> ok (fst (AtomicBuilder_commit
                (AtomicBuilder_set (AtomicBuilder_new (collection b)) ident data)
                (snd (AtomicBuilder_commit
                   (AtomicBuilder_set (AtomicBuilder_new (collection b)) id1 v1) s))))"
    using sparse_second_commit [OF assms(1,2), of data id1 ident s v1] by blast
  from c m a keys two show ?thesis by blast
qed

theorem undefined_field_not_indexed_witness:
  "collection (AtomicBuilder_new users) = newIndexableCollection [VStr ''users''] [''email''] [''role'']
   \<and> indexable (collection (AtomicBuilder_new users)) = Some (the (indexable users))
   \<and> field_of dave ''email'' = None
   \<and> list_all (\<lambda>g. field_of dave g = None) [''email''] \<and> VStr ''u3'' \<noteq> VStr ''u4''
   \<and> ok (fst (AtomicBuilder_commit
        (AtomicBuilder_set (AtomicBuilder_new users) (VStr ''u4'') dave) empty_store))
   \<and> \<not> refused (snd (AtomicBuilder_commit
        (AtomicBuilder_set (AtomicBuilder_new users) (VStr ''u3'') carol) empty_store))
   \<and> ok (fst (AtomicBuilder_commit
        (AtomicBuilder_set (AtomicBuilder_new users) (VStr ''u4'') dave)
        (snd (AtomicBuilder_commit
           (AtomicBuilder_set (AtomicBuilder_new users) (VStr ''u3'') carol) empty_store))))
   \<and> mkey ` set (mutations (atomicOperation (operations
        (AtomicBuilder_set (AtomicBuilder_new users) (VStr ''u4'') dave))))
      = {extendKey (collectionIdKey users) [VStr ''u4''],
         extendKey (secondaryCollectionIndexKey (the (indexable users)))
           [VStr ''role'', VStr ''admin'', VStr ''u4'']}"
proof -
  have c: "collection (AtomicBuilder_new users)
      = newIndexableCollection [VStr ''users''] [''email''] [''role'']"
    by (simp add: users_def)
  have ix: "indexable (collection (AtomicBuilder_new users)) = Some (the (indexable users))"
    by (simp add: users_def newIndexableCollection_def)
  have f: "field_of dave ''email'' = None" by (simp add: dave_def field_of_def)
  have all: "\<forall>g\<in>set [''email'']. field_of dave g = None" using f by simp
  have alone: "ok (fst (AtomicBuilder_commit
        (AtomicBuilder_set (AtomicBuilder_new users) (VStr ''u4'') dave) empty_store))"
    by (simp add: builder_defs eval_defs dave_def)
  have nr: "\<not> refused (snd (AtomicBuilder_commit
        (AtomicBuilder_set (AtomicBuilder_new users) (VStr ''u3'') carol) empty_store))"
    by (simp add: builder_defs eval_defs carol_def)
  have ks: "mkey ` set (mutations (atomicOperation (operations
        (AtomicBuilder_set (AtomicBuilder_new users) (VStr ''u4'') dave))))
      = {extendKey (collectionIdKey users) [VStr ''u4''],
         extendKey (secondaryCollectionIndexKey (the (indexable users)))
           [VStr ''role'', VStr ''admin'', VStr ''u4'']}"
    by (simp add: builder_defs eval_defs dave_def)
  have ids: "VStr ''u3'' \<noteq> VStr ''u4''" by simp
  note sparse = undefined_field_not_indexed [OF c ix f refl, of "VStr ''u4''" "VStr ''u3''"
      empty_store carol, unfolded new_fields(5)]
  have two: "ok (fst (AtomicBuilder_commit
        (AtomicBuilder_set (AtomicBuilder_new users) (VStr ''u4'') dave)
        (snd (AtomicBuilder_commit
           (AtomicBuilder_set (AtomicBuilder_new users) (VStr ''u3'') carol) empty_store))))"
    using sparse all ids alone nr by blast
  have every: "list_all (\<lambda>g. field_of dave g = None) [''email'']" using f by simp
  from c ix f every ids alone nr two ks show ?thesis by blast
qed

section \<open>Deleting a document that is absent\<close>

lemma primaryIndexDeletes_empty: "pd_data pd = VObj [] \<Longrightarrow> primaryIndexDeletes pd flds a = a"
  by (induction flds arbitrary: a) (simp_all add: field_of_def)

lemma secondaryIndexDeletes_empty:
  "pd_data pd = VObj [] \<Longrightarrow> secondaryIndexDeletes pd flds a = a"
  by (induction flds arbitrary: a) (simp_all add: field_of_def)

lemma cleanupAtomic_empty: "pd_data pd = VObj [] \<Longrightarrow> cleanupAtomic pd = atomic"
  by (simp add: cleanupAtomic_def primaryIndexDeletes_empty secondaryIndexDeletes_empty)

lemma prepareDelete_absent:
  "entries s k = None \<Longrightarrow>
     prepareDelete k ident ix s
       = (\<lparr>pd_id = ident, pd_data = VObj [], pd_index = ix\<rparr>, s\<lparr>trace := trace s @ [EGet k]\<rparr>)"
  by (simp add: prepareDelete_def kv_get_def)

lemma delete_fields:
  assumes "indexable (collection b) = Some ix"
  shows "prepareDeleteFns (operations (AtomicBuilder_delete b ident))
      = prepareDeleteFns (operations b)
        @ [prepareDelete (extendKey (collectionIdKey (collection b)) [ident]) ident ix]"
    and "indexAddCollectionKeys (operations (AtomicBuilder_delete b ident))
      = indexAddCollectionKeys (operations b)"
  using assms by (simp_all add: AtomicBuilder_delete_def Let_def)

lemma commit_delete_absent:
  assumes ix: "indexable c = Some ix"
    and absent: "entries s (extendKey (collectionIdKey c) [ident]) = None"
    and nr: "\<not> refused s"
  shows "AtomicBuilder_commit (AtomicBuilder_delete (AtomicBuilder_new c) ident) s
     = (KvCommitResult (clock s),
        snd (atomic_commit atomic
          (s\<lparr>clock := Suc (clock s), faults := tl (faults s),
             trace := trace s @ [EGet (extendKey (collectionIdKey c) [ident]),
               ECommit [] [MDelete (extendKey (collectionIdKey c) [ident])] True]\<rparr>)))"
proof -
  let ?k = "extendKey (collectionIdKey c) [ident]"
  let ?b = "AtomicBuilder_delete (AtomicBuilder_new c) ident"
  let ?pd = "\<lparr>pd_id = ident, pd_data = VObj [], pd_index = ix\<rparr>"
  let ?s1 = "s\<lparr>trace := trace s @ [EGet ?k]\<rparr>"
  have cx: "indexable (collection (AtomicBuilder_new c)) = Some ix" using ix by simp
  have no: "\<not> list_ex (\<lambda>addKey. list_ex (\<lambda>deleteKey. keyEq addKey deleteKey)
      (indexDeleteCollectionKeys (operations ?b))) (indexAddCollectionKeys (operations ?b))"
    by (simp add: delete_fields(2) [OF cx])
  have pr: "runPrepares (prepareDeleteFns (operations ?b)) s = ([?pd], ?s1)"
    by (simp add: delete_fields(1) [OF cx] prepareDelete_absent [OF absent])
  have ao: "atomicOperation (operations ?b) = \<lparr>checks = [], mutations = [MDelete ?k]\<rparr>"
    by (simp add: atomicOperation_delete op_delete_def op_mutate_def atomic_def)
  have es: "(entries s)(?k := None) = entries s" using absent by (simp add: fun_upd_idem_iff)
  have ac: "atomic_commit \<lparr>checks = [], mutations = [MDelete ?k]\<rparr> ?s1
      = (KvCommitResult (clock s),
         s\<lparr>clock := Suc (clock s), faults := tl (faults s),
           trace := trace s @ [EGet ?k, ECommit [] [MDelete ?k] True]\<rparr>)"
    using nr by (simp add: atomic_commit_def refused_def es)
  show ?thesis
    using no by (simp add: AtomicBuilder_commit_def pr ao ac cleanupAtomic_empty)
qed

text \<open>
  C10. \<^verbatim>\<open>delete\<close> on an indexable collection enqueues the deletion of the id key, with no
  check, and registers a prepare closure. Run on a store with no entry at the id key, the
  closure captures the empty object as the data, and the cleanup atomic made of such a
  capture has no mutation: no index key is deleted. The commit of a new builder with this
  one deletion, on a store that does not refuse it, reads the id key, commits the deletion
  with success and then commits the empty cleanup atomic; the entries of the store stay as
  they were.
\<close>

theorem delete_absent_document:
  assumes "indexable c = Some ix"
    and "docKey = extendKey (collectionIdKey c) [ident]"
    and "entries s docKey = None"
    and "\<not> refused s"
    and "collection b = c"
  shows "fst (prepareDelete docKey ident ix s) = \<lparr>pd_id = ident, pd_data = VObj [], pd_index = ix\<rparr>
    \<and> cleanupAtomic \<lparr>pd_id = ident, pd_data = VObj [], pd_index = ix\<rparr> = atomic
    \<and> mutations (cleanupAtomic (fst (prepareDelete docKey ident ix s))) = []
    \<and> prepareDeleteFns (operations (AtomicBuilder_delete b ident))
        = prepareDeleteFns (operations b) @ [prepareDelete docKey ident ix]
    \<and> checks (atomicOperation (operations (AtomicBuilder_delete b ident)))
        = checks (atomicOperation (operations b))
    \<and> mutations (atomicOperation (operations (AtomicBuilder_delete b ident)))
        = mutations (atomicOperation (operations b)) @ [MDelete docKey]
    \<and> fst (AtomicBuilder_commit (AtomicBuilder_delete (AtomicBuilder_new c) ident) s)
        = KvCommitResult (clock s)
    \<and> entries (snd (AtomicBuilder_commit (AtomicBuilder_delete (AtomicBuilder_new c) ident) s))
        = entries s
    \<and> trace (snd (AtomicBuilder_commit (AtomicBuilder_delete (AtomicBuilder_new c) ident) s))
        = trace s @ [EGet docKey, ECommit [] [MDelete docKey] True,
                     ECommit [] [] (\<not> refused (s\<lparr>faults := tl (faults s)\<rparr>))]"
proof -
  let ?pd = "\<lparr>pd_id = ident, pd_data = VObj [], pd_index = ix\<rparr>"
  have cb: "indexable (collection b) = Some ix" using assms(1,5) by simp
  have p: "fst (prepareDelete docKey ident ix s) = ?pd"
    by (simp add: prepareDelete_absent [OF assms(3)])
  have cl: "cleanupAtomic ?pd = atomic" by (simp add: cleanupAtomic_empty)
  have cm: "mutations (cleanupAtomic (fst (prepareDelete docKey ident ix s))) = []"
    unfolding p cl by (simp add: atomic_def)
  have pf: "prepareDeleteFns (operations (AtomicBuilder_delete b ident))
        = prepareDeleteFns (operations b) @ [prepareDelete docKey ident ix]"
    using delete_fields(1) [OF cb, of ident] assms(2,5) by simp
  have ch: "checks (atomicOperation (operations (AtomicBuilder_delete b ident)))
        = checks (atomicOperation (operations b))"
    by (simp add: atomicOperation_delete op_delete_def op_mutate_def)
  have mu: "mutations (atomicOperation (operations (AtomicBuilder_delete b ident)))
        = mutations (atomicOperation (operations b)) @ [MDelete docKey]"
    using assms(2,5) by (simp add: atomicOperation_delete op_delete_def op_mutate_def)
  note co = commit_delete_absent [OF assms(1) assms(3) [unfolded assms(2)] assms(4), folded assms(2)]
  have r: "fst (AtomicBuilder_commit (AtomicBuilder_delete (AtomicBuilder_new c) ident) s)
        = KvCommitResult (clock s)"
    unfolding co by simp
  have e: "entries (snd (AtomicBuilder_commit (AtomicBuilder_delete (AtomicBuilder_new c) ident) s))
        = entries s"
    unfolding co by (simp add: atomic_commit_def atomic_def Let_def)
  have t: "trace (snd (AtomicBuilder_commit (AtomicBuilder_delete (AtomicBuilder_new c) ident) s))
        = trace s @ [EGet docKey, ECommit [] [MDelete docKey] True,
                     ECommit [] [] (\<not> refused (s\<lparr>faults := tl (faults s)\<rparr>))]"
    unfolding co by (simp add: atomic_commit_def atomic_def refused_def Let_def)
  from p cl cm pf ch mu r e t show ?thesis by blast
qed

theorem delete_absent_document_witness:
  "indexable users = Some (the (indexable users))
   \<and> entries store0 (extendKey (collectionIdKey users) [VStr ''u9'']) = None
   \<and> \<not> refused store0
   \<and> collection (AtomicBuilder_select (run_calls (AtomicBuilder_new users) log_calls) users)
       = users
   \<and> AtomicBuilder_commit (AtomicBuilder_delete (AtomicBuilder_new users) (VStr ''u9'')) store0
       = (KvCommitResult 8,
          store0\<lparr>clock := 10,
            trace := [EGet (extendKey (collectionIdKey users) [VStr ''u9'']),
              ECommit [] [MDelete (extendKey (collectionIdKey users) [VStr ''u9''])] True,
              ECommit [] [] True]\<rparr>)
   \<and> fst (AtomicBuilder_commit (AtomicBuilder_delete (AtomicBuilder_new users) (VStr ''u9''))
        store0) = KvCommitResult (clock store0)
   \<and> entries (snd (AtomicBuilder_commit
        (AtomicBuilder_delete (AtomicBuilder_new users) (VStr ''u9'')) store0)) = entries store0"
proof -
  have ix: "indexable users = Some (the (indexable users))"
    by (simp add: users_def newIndexableCollection_def)
  have a: "entries store0 (extendKey (collectionIdKey users) [VStr ''u9'']) = None"
    by (simp add: store0_def builder_defs eval_defs)
  have nr: "\<not> refused store0" by (simp add: store0_def refused_def)
  have cb: "collection (AtomicBuilder_select (run_calls (AtomicBuilder_new users) log_calls)
      users) = users" by simp
  have ev: "AtomicBuilder_commit (AtomicBuilder_delete (AtomicBuilder_new users) (VStr ''u9''))
      store0
       = (KvCommitResult 8,
          store0\<lparr>clock := 10,
            trace := [EGet (extendKey (collectionIdKey users) [VStr ''u9'']),
              ECommit [] [MDelete (extendKey (collectionIdKey users) [VStr ''u9''])] True,
              ECommit [] [] True]\<rparr>)"
    by (simp add: store0_def builder_defs eval_defs)
  note d = delete_absent_document [OF ix refl a nr cb]
  from ix a nr cb ev d show ?thesis by blast
qed

end
